theory Spec2Isabelle
  imports Main "HOL-Library.Word"
begin

section \<open>ritobin: the binary reader of \<open>binary_read.cpp\<close>\<close>

text \<open>
  The embedding follows \<open>src/ritobin/binary_read.cpp\<close>. The input buffer
  \<open>[beg_, cap_)\<close> is a list of bytes and \<open>cur_\<close> is kept as the offset \<open>cur_ - beg_\<close>.
  Pointer sums such as \<open>cur_ + sizeof(T) * size\<close> are computed in \<open>nat\<close>: a 64-bit
  \<open>size_t\<close> is assumed, so that a 32-bit count times an element size added to an
  offset does not wrap. Multi-byte integers are copied by \<open>memcpy\<close> in the byte order
  of the host, taken to be little-endian. Floating-point payloads are kept as the
  raw bits that \<open>memcpy\<close> copies.
\<close>

subsection \<open>\<open>struct BinaryReader\<close>\<close>

type_synonym byte = "8 word"

record BinaryReader =
  bytes :: "byte list"
  cur :: nat

definition cap :: "BinaryReader \<Rightarrow> nat" where
  "cap r = length (bytes r)"

definition position :: "BinaryReader \<Rightarrow> nat" where
  "position r = cur r"

text \<open>The bytes that \<open>memcpy(&value, cur_, n)\<close> copies.\<close>

definition peek :: "nat \<Rightarrow> BinaryReader \<Rightarrow> byte list" where
  "peek n r = take n (drop (cur r) (bytes r))"

definition advance :: "nat \<Rightarrow> BinaryReader \<Rightarrow> BinaryReader" where
  "advance n r = r\<lparr>cur := cur r + n\<rparr>"

fun le_word :: "byte list \<Rightarrow> 'a::len word" where
  "le_word [] = 0"
| "le_word (b # bs) = ucast b + 256 * le_word bs"

text \<open>\<open>sizeof(T)\<close> of an arithmetic type kept as an \<open>'a word\<close>.\<close>

definition sizeof :: "'a::len word \<Rightarrow> nat" where
  "sizeof v = LENGTH('a) div 8"

fun chunks :: "nat \<Rightarrow> nat \<Rightarrow> byte list \<Rightarrow> byte list list" where
  "chunks w 0 bs = []"
| "chunks w (Suc n) bs = take w bs # chunks w n (drop w bs)"

text \<open>
  Every read returns the \<open>bool\<close> of the source, the destination after the call and
  the reader after the call; the destination before the call is the argument
  \<open>value\<close>.
\<close>

text \<open>\<open>template<typename T> bool read(T& value)\<close>\<close>

definition read :: "'a::len word \<Rightarrow> BinaryReader \<Rightarrow> bool \<times> 'a word \<times> BinaryReader" where
  "read value r =
     (if cur r + sizeof value > cap r then (False, value, r)
      else (True, le_word (peek (sizeof value) r), advance (sizeof value) r))"

text \<open>\<open>template<typename T, size_t SIZE> bool read(std::array<T, SIZE>& value)\<close>\<close>

definition read_array ::
  "nat \<Rightarrow> 'a::len word list \<Rightarrow> BinaryReader \<Rightarrow> bool \<times> 'a word list \<times> BinaryReader" where
  "read_array SIZE value r =
     (let w = sizeof (0::'a word) in
      if cur r + w * SIZE > cap r then (False, value, r)
      else (True, map le_word (chunks w SIZE (peek (w * SIZE) r)), advance (w * SIZE) r))"

text \<open>\<open>template<typename T> bool read(std::vector<T>& value, size_t size)\<close>\<close>

definition read_vector ::
  "'a::len word list \<Rightarrow> nat \<Rightarrow> BinaryReader \<Rightarrow> bool \<times> 'a word list \<times> BinaryReader" where
  "read_vector value size_n r =
     (let w = sizeof (0::'a word) in
      if cur r + w * size_n > cap r then (False, value, r)
      else (True, map le_word (chunks w size_n (peek (w * size_n) r)), advance (w * size_n) r))"

text \<open>\<open>bool read(std::string& value)\<close>\<close>

definition read_string :: "byte list \<Rightarrow> BinaryReader \<Rightarrow> bool \<times> byte list \<times> BinaryReader" where
  "read_string value r =
     (case read (0::16 word) r of
        (False, size_n, r1) \<Rightarrow> (False, value, r1)
      | (True, size_n, r1) \<Rightarrow>
          if cur r1 + unat size_n > cap r1 then (False, value, r1)
          else (True, peek (unat size_n) r1, advance (unat size_n) r1))"

text \<open>
  The enumeration \<open>Type\<close> has \<open>uint8_t\<close> as its values; \<open>static_cast<Type>(raw)\<close>
  keeps the byte. The header \<open>bin.hpp\<close> that declares the enumerators,
  \<open>is_primitive\<close>, \<open>is_container\<close>, \<open>MAX_PRIMITIVE\<close> and \<open>MAX_COMPLEX\<close> is not among
  the sources, so the reader takes them as the fields of a table.
\<close>

type_synonym Type = "8 word"

text \<open>
  Modelled from the spec: the alternatives of \<open>Value\<close> are declared in \<open>bin.hpp\<close>,
  which is not among the sources. They follow the data model of the spec: the
  scalars (\<open>None\<close>, \<open>Bool\<close>, the integers, \<open>F32\<close>, the float vectors and the matrix,
  \<open>RGBA\<close>, \<open>String\<close>, the 32-bit \<open>Hash\<close>, the 64-bit hash \<open>File\<close>, \<open>Flag\<close>) and the
  containers. Each scalar holds the member \<open>value\<close> that \<open>reader.read(value.value)\<close>
  fills; \<open>List\<close>, \<open>List2\<close> and \<open>Option\<close> hold \<open>valueType\<close> and \<open>items\<close>, \<open>Map\<close> holds
  \<open>keyType\<close>, \<open>valueType\<close> and \<open>items\<close>, \<open>Embed\<close> and \<open>Pointer\<close> hold \<open>name\<close> and
  \<open>items\<close>.
\<close>

datatype Value =
    None_v
  | Bool byte
  | I8 "8 word"
  | U8 "8 word"
  | I16 "16 word"
  | U16 "16 word"
  | I32 "32 word"
  | U32 "32 word"
  | I64 "64 word"
  | U64 "64 word"
  | F32 "32 word"
  | Vec2 "32 word list"
  | Vec3 "32 word list"
  | Vec4 "32 word list"
  | Mtx44 "32 word list"
  | RGBA "8 word list"
  | String "byte list"
  | Hash "32 word"
  | File "64 word"
  | Flag byte
  | List Type "Value list"
  | List2 Type "Value list"
  | Option_v Type "Value list"
  | Map_v Type Type "(Value \<times> Value) list"
  | Embed "32 word" "(32 word \<times> Value) list"
  | Pointer "32 word" "(32 word \<times> Value) list"

record TypeTable =
  is_primitive :: "Type \<Rightarrow> bool"
  is_container :: "Type \<Rightarrow> bool"
  MAX_PRIMITIVE :: Type
  MAX_COMPLEX :: Type
  from_type :: "Type \<Rightarrow> Value"
  STRING :: Type
  HASH :: Type
  EMBED :: Type

text \<open>\<open>bool read(Type& value)\<close>\<close>

definition read_Type :: "TypeTable \<Rightarrow> Type \<Rightarrow> BinaryReader \<Rightarrow> bool \<times> Type \<times> BinaryReader" where
  "read_Type tbl value r =
     (case read (0::8 word) r of
        (False, raw, r1) \<Rightarrow> (False, value, r1)
      | (True, raw, r1) \<Rightarrow>
          (if is_primitive tbl raw then raw \<le> MAX_PRIMITIVE tbl else raw \<le> MAX_COMPLEX tbl,
           raw, r1))"

text \<open>\<open>bool read(FNV1a& value)\<close> and \<open>bool read(XXH64& value)\<close>\<close>

definition read_FNV1a :: "32 word \<Rightarrow> BinaryReader \<Rightarrow> bool \<times> 32 word \<times> BinaryReader" where
  "read_FNV1a value r =
     (case read (0::32 word) r of
        (False, h, r1) \<Rightarrow> (False, value, r1)
      | (True, h, r1) \<Rightarrow> (True, h, r1))"

definition read_XXH64 :: "64 word \<Rightarrow> BinaryReader \<Rightarrow> bool \<times> 64 word \<times> BinaryReader" where
  "read_XXH64 value r =
     (case read (0::64 word) r of
        (False, h, r1) \<Rightarrow> (False, value, r1)
      | (True, h, r1) \<Rightarrow> (True, h, r1))"

subsection \<open>\<open>struct BinBinaryReader\<close>\<close>

text \<open>
  \<open>Bin\<close> is the document the caller owns; \<open>sections\<close> maps a section name to its
  value and \<open>emplace\<close> leaves an existing key as it is. A position kept in \<open>error\<close>
  is the offset of the recorded pointer from the start of the buffer.
\<close>

record Bin =
  sections :: "string \<rightharpoonup> Value"

record BinBinaryReader =
  bin :: Bin
  reader :: BinaryReader
  error :: "(string \<times> nat) list"

definition emplace :: "string \<Rightarrow> Value \<Rightarrow> BinBinaryReader \<Rightarrow> BinBinaryReader" where
  "emplace k v st =
     (if k \<in> dom (sections (bin st)) then st
      else st\<lparr>bin := (bin st)\<lparr>sections := (sections (bin st))(k \<mapsto> v)\<rparr>\<rparr>)"

text \<open>
  A member function returns \<open>false\<close> (\<open>Failed\<close>) or \<open>true\<close> (\<open>Done\<close>, with the object it
  has filled), and leaves the reader state behind. The values under construction
  are locals of the callers, dropped when a callee fails, so \<open>Failed\<close> carries the
  state only. \<open>OutOfFuel\<close> is not a result of the program: it marks a run of
  \<open>read_value_of\<close> cut off by the recursion bound of the embedding.
\<close>

datatype 'a outcome = OutOfFuel | Failed BinBinaryReader | Done 'a BinBinaryReader

fun then_do :: "'a outcome \<Rightarrow> ('a \<Rightarrow> BinBinaryReader \<Rightarrow> 'b outcome) \<Rightarrow> 'b outcome" where
  "then_do OutOfFuel k = OutOfFuel"
| "then_do (Failed st) k = Failed st"
| "then_do (Done v st) k = k v st"

definition fail_msg :: "string \<Rightarrow> nat \<Rightarrow> BinBinaryReader \<Rightarrow> 'a outcome" where
  "fail_msg msg pos st = Failed (st\<lparr>error := error st @ [(msg, pos)]\<rparr>)"

text \<open>
  The macro \<open>bin_assert(...)\<close> keeps \<open>start = reader.cur_\<close>, evaluates its argument and
  returns \<open>fail_msg(#__VA_ARGS__, start)\<close> when it is false. Its three uses: on a
  read of the \<open>BinaryReader\<close>, on a call of a member function, on a plain condition.
\<close>

definition assert_read ::
  "string \<Rightarrow> (BinaryReader \<Rightarrow> bool \<times> 'a \<times> BinaryReader) \<Rightarrow> BinBinaryReader \<Rightarrow> 'a outcome" where
  "assert_read msg rd st =
     (let start = cur (reader st) in
      case rd (reader st) of
        (ok, v, r) \<Rightarrow>
          if ok then Done v (st\<lparr>reader := r\<rparr>) else fail_msg msg start (st\<lparr>reader := r\<rparr>))"

definition assert_call ::
  "string \<Rightarrow> (BinBinaryReader \<Rightarrow> 'a outcome) \<Rightarrow> BinBinaryReader \<Rightarrow> 'a outcome" where
  "assert_call msg f st =
     (let start = cur (reader st) in
      case f st of
        OutOfFuel \<Rightarrow> OutOfFuel
      | Failed st' \<Rightarrow> fail_msg msg start st'
      | Done v st' \<Rightarrow> Done v st')"

definition assert_cond :: "string \<Rightarrow> bool \<Rightarrow> BinBinaryReader \<Rightarrow> unit outcome" where
  "assert_cond msg c st = (if c then Done () st else fail_msg msg (cur (reader st)) st)"

text \<open>
  The loop \<open>for (size_t i = 0; i != count; i++)\<close> of \<open>read_entry\<close>, of
  \<open>read_value_visit(Embed&)\<close> and of \<open>read_value_visit(Pointer&)\<close>, whose three bodies
  are the same text: a field is appended to \<open>items\<close>, then its name, its type and
  its value are read. The first argument is the \<open>read_value_of\<close> that the body calls.
\<close>

fun read_fields ::
  "(Type \<Rightarrow> BinBinaryReader \<Rightarrow> Value outcome) \<Rightarrow> TypeTable \<Rightarrow> nat \<Rightarrow>
   (32 word \<times> Value) list \<Rightarrow> BinBinaryReader \<Rightarrow> (32 word \<times> Value) list outcome" where
  "read_fields rv tbl 0 items st = Done items st"
| "read_fields rv tbl (Suc n) items st =
     then_do (assert_read ''reader.read(name)'' (read_FNV1a 0) st) (\<lambda>name st.
     then_do (assert_read ''reader.read(type)'' (read_Type tbl 0) st) (\<lambda>type st.
     then_do (assert_call ''read_value_of(item, type)'' (rv type) st) (\<lambda>item st.
     read_fields rv tbl n (items @ [(name, item)]) st)))"

text \<open>The loop of \<open>read_value_visit(List&)\<close> and of \<open>read_value_visit(List2&)\<close>.\<close>

fun read_items ::
  "(Type \<Rightarrow> BinBinaryReader \<Rightarrow> Value outcome) \<Rightarrow> Type \<Rightarrow> nat \<Rightarrow>
   Value list \<Rightarrow> BinBinaryReader \<Rightarrow> Value list outcome" where
  "read_items rv valueType 0 items st = Done items st"
| "read_items rv valueType (Suc n) items st =
     then_do (assert_call ''read_value_of(item, value.valueType)'' (rv valueType) st) (\<lambda>item st.
     read_items rv valueType n (items @ [item]) st)"

text \<open>The loop of \<open>read_value_visit(Map&)\<close>.\<close>

fun read_pairs ::
  "(Type \<Rightarrow> BinBinaryReader \<Rightarrow> Value outcome) \<Rightarrow> Type \<Rightarrow> Type \<Rightarrow> nat \<Rightarrow>
   (Value \<times> Value) list \<Rightarrow> BinBinaryReader \<Rightarrow> (Value \<times> Value) list outcome" where
  "read_pairs rv keyType valueType 0 items st = Done items st"
| "read_pairs rv keyType valueType (Suc n) items st =
     then_do (assert_call ''read_value_of(key, value.keyType)'' (rv keyType) st) (\<lambda>key st.
     then_do (assert_call ''read_value_of(item, value.valueType)'' (rv valueType) st) (\<lambda>item st.
     read_pairs rv keyType valueType n (items @ [(key, item)]) st))"

text \<open>\<open>bool read_value_visit(None&)\<close>\<close>

definition read_value_visit_None :: "BinBinaryReader \<Rightarrow> Value outcome" where
  "read_value_visit_None st =
     then_do (assert_cond ''false'' False st) (\<lambda>_ st.
     Done None_v st)"

text \<open>\<open>bool read_value_visit(Embed& value)\<close>\<close>

definition read_value_visit_Embed ::
  "TypeTable \<Rightarrow> (Type \<Rightarrow> BinBinaryReader \<Rightarrow> Value outcome) \<Rightarrow> 32 word \<Rightarrow>
   (32 word \<times> Value) list \<Rightarrow> BinBinaryReader \<Rightarrow> Value outcome" where
  "read_value_visit_Embed tbl rv name items st =
     then_do (assert_read ''reader.read(value.name)'' (read_FNV1a name) st) (\<lambda>name st.
     then_do (assert_read ''reader.read(size)'' (read (0::32 word)) st) (\<lambda>size_n st.
     let pos = position (reader st) in
     then_do (assert_read ''reader.read(count)'' (read (0::16 word)) st) (\<lambda>count st.
     then_do (read_fields rv tbl (unat count) items st) (\<lambda>items st.
     then_do (assert_cond ''reader.position() == position + size''
                (position (reader st) = pos + unat size_n) st) (\<lambda>_ st.
     Done (Embed name items) st)))))"

text \<open>\<open>bool read_value_visit(Pointer& value)\<close>\<close>

definition read_value_visit_Pointer ::
  "TypeTable \<Rightarrow> (Type \<Rightarrow> BinBinaryReader \<Rightarrow> Value outcome) \<Rightarrow> 32 word \<Rightarrow>
   (32 word \<times> Value) list \<Rightarrow> BinBinaryReader \<Rightarrow> Value outcome" where
  "read_value_visit_Pointer tbl rv name items st =
     then_do (assert_read ''reader.read(value.name)'' (read_FNV1a name) st) (\<lambda>name st.
     if name = 0 then Done (Pointer name items) st
     else
     then_do (assert_read ''reader.read(size)'' (read (0::32 word)) st) (\<lambda>size_n st.
     let pos = position (reader st) in
     then_do (assert_read ''reader.read(count)'' (read (0::16 word)) st) (\<lambda>count st.
     then_do (read_fields rv tbl (unat count) items st) (\<lambda>items st.
     then_do (assert_cond ''reader.position() == position + size''
                (position (reader st) = pos + unat size_n) st) (\<lambda>_ st.
     Done (Pointer name items) st)))))"

text \<open>\<open>bool read_value_visit(Option& value)\<close>\<close>

definition read_value_visit_Option ::
  "TypeTable \<Rightarrow> (Type \<Rightarrow> BinBinaryReader \<Rightarrow> Value outcome) \<Rightarrow> Type \<Rightarrow>
   Value list \<Rightarrow> BinBinaryReader \<Rightarrow> Value outcome" where
  "read_value_visit_Option tbl rv valueType items st =
     then_do (assert_read ''reader.read(value.valueType)'' (read_Type tbl valueType) st) (\<lambda>valueType st.
     then_do (assert_cond ''!is_container(value.valueType)'' (\<not> is_container tbl valueType) st) (\<lambda>_ st.
     then_do (assert_read ''reader.read(count)'' (read (0::8 word)) st) (\<lambda>count st.
     if count \<noteq> 0 then
       then_do (assert_call ''read_value_of(item, value.valueType)'' (rv valueType) st) (\<lambda>item st.
       Done (Option_v valueType (items @ [item])) st)
     else Done (Option_v valueType items) st)))"

text \<open>\<open>bool read_value_visit(List& value)\<close>\<close>

definition read_value_visit_List ::
  "TypeTable \<Rightarrow> (Type \<Rightarrow> BinBinaryReader \<Rightarrow> Value outcome) \<Rightarrow> Type \<Rightarrow>
   Value list \<Rightarrow> BinBinaryReader \<Rightarrow> Value outcome" where
  "read_value_visit_List tbl rv valueType items st =
     then_do (assert_read ''reader.read(value.valueType)'' (read_Type tbl valueType) st) (\<lambda>valueType st.
     then_do (assert_cond ''!is_container(value.valueType)'' (\<not> is_container tbl valueType) st) (\<lambda>_ st.
     then_do (assert_read ''reader.read(size)'' (read (0::32 word)) st) (\<lambda>size_n st.
     let pos = position (reader st) in
     then_do (assert_read ''reader.read(count)'' (read (0::32 word)) st) (\<lambda>count st.
     then_do (read_items rv valueType (unat count) items st) (\<lambda>items st.
     then_do (assert_cond ''reader.position() == position + size''
                (position (reader st) = pos + unat size_n) st) (\<lambda>_ st.
     Done (List valueType items) st))))))"

text \<open>\<open>bool read_value_visit(List2& value)\<close>\<close>

definition read_value_visit_List2 ::
  "TypeTable \<Rightarrow> (Type \<Rightarrow> BinBinaryReader \<Rightarrow> Value outcome) \<Rightarrow> Type \<Rightarrow>
   Value list \<Rightarrow> BinBinaryReader \<Rightarrow> Value outcome" where
  "read_value_visit_List2 tbl rv valueType items st =
     then_do (assert_read ''reader.read(value.valueType)'' (read_Type tbl valueType) st) (\<lambda>valueType st.
     then_do (assert_cond ''!is_container(value.valueType)'' (\<not> is_container tbl valueType) st) (\<lambda>_ st.
     then_do (assert_read ''reader.read(size)'' (read (0::32 word)) st) (\<lambda>size_n st.
     let pos = position (reader st) in
     then_do (assert_read ''reader.read(count)'' (read (0::32 word)) st) (\<lambda>count st.
     then_do (read_items rv valueType (unat count) items st) (\<lambda>items st.
     then_do (assert_cond ''reader.position() == position + size''
                (position (reader st) = pos + unat size_n) st) (\<lambda>_ st.
     Done (List2 valueType items) st))))))"

text \<open>\<open>bool read_value_visit(Map& value)\<close>\<close>

definition read_value_visit_Map ::
  "TypeTable \<Rightarrow> (Type \<Rightarrow> BinBinaryReader \<Rightarrow> Value outcome) \<Rightarrow> Type \<Rightarrow> Type \<Rightarrow>
   (Value \<times> Value) list \<Rightarrow> BinBinaryReader \<Rightarrow> Value outcome" where
  "read_value_visit_Map tbl rv keyType valueType items st =
     then_do (assert_read ''reader.read(value.keyType)'' (read_Type tbl keyType) st) (\<lambda>keyType st.
     then_do (assert_cond ''is_primitive(value.keyType)'' (is_primitive tbl keyType) st) (\<lambda>_ st.
     then_do (assert_read ''reader.read(value.valueType)'' (read_Type tbl valueType) st) (\<lambda>valueType st.
     then_do (assert_cond ''!is_container(value.valueType)'' (\<not> is_container tbl valueType) st) (\<lambda>_ st.
     then_do (assert_read ''reader.read(size)'' (read (0::32 word)) st) (\<lambda>size_n st.
     let pos = position (reader st) in
     then_do (assert_read ''reader.read(count)'' (read (0::32 word)) st) (\<lambda>count st.
     then_do (read_pairs rv keyType valueType (unat count) items st) (\<lambda>items st.
     then_do (assert_cond ''reader.position() == position + size''
                (position (reader st) = pos + unat size_n) st) (\<lambda>_ st.
     Done (Map_v keyType valueType items) st))))))))"

text \<open>
  \<open>template<typename T> bool read_value_visit(T& value)\<close>, for every other
  alternative: \<open>C\<close> is the alternative and \<open>rd\<close> the overload of \<open>reader.read\<close> that
  the type of \<open>value.value\<close> selects.
\<close>

definition read_value_visit_T ::
  "('a \<Rightarrow> Value) \<Rightarrow> (BinaryReader \<Rightarrow> bool \<times> 'a \<times> BinaryReader) \<Rightarrow> BinBinaryReader \<Rightarrow> Value outcome" where
  "read_value_visit_T C rd st =
     then_do (assert_read ''reader.read(value.value)'' rd st) (\<lambda>v st.
     Done (C v) st)"

text \<open>
  The \<open>std::visit\<close> of \<open>read_value_of\<close>: overload resolution on the alternative that
  \<open>value\<close> holds. The members \<open>value\<close> of the scalars have the types of the spec:
  one byte for \<open>Bool\<close> and \<open>Flag\<close>, the integer of the name, a \<open>float\<close> for \<open>F32\<close>,
  \<open>std::array\<close> of 2, 3, 4 and 16 \<open>float\<close> for the vectors and the matrix, of 4 bytes
  for \<open>RGBA\<close>, \<open>std::string\<close>, \<open>FNV1a\<close> and \<open>XXH64\<close>.
\<close>

definition read_value_visit ::
  "TypeTable \<Rightarrow> (Type \<Rightarrow> BinBinaryReader \<Rightarrow> Value outcome) \<Rightarrow> Value \<Rightarrow>
   BinBinaryReader \<Rightarrow> Value outcome" where
  "read_value_visit tbl rv value st =
     (case value of
        None_v \<Rightarrow> read_value_visit_None st
      | Embed name items \<Rightarrow> read_value_visit_Embed tbl rv name items st
      | Pointer name items \<Rightarrow> read_value_visit_Pointer tbl rv name items st
      | Option_v valueType items \<Rightarrow> read_value_visit_Option tbl rv valueType items st
      | List valueType items \<Rightarrow> read_value_visit_List tbl rv valueType items st
      | List2 valueType items \<Rightarrow> read_value_visit_List2 tbl rv valueType items st
      | Map_v keyType valueType items \<Rightarrow> read_value_visit_Map tbl rv keyType valueType items st
      | Bool v \<Rightarrow> read_value_visit_T Bool (read v) st
      | I8 v \<Rightarrow> read_value_visit_T I8 (read v) st
      | U8 v \<Rightarrow> read_value_visit_T U8 (read v) st
      | I16 v \<Rightarrow> read_value_visit_T I16 (read v) st
      | U16 v \<Rightarrow> read_value_visit_T U16 (read v) st
      | I32 v \<Rightarrow> read_value_visit_T I32 (read v) st
      | U32 v \<Rightarrow> read_value_visit_T U32 (read v) st
      | I64 v \<Rightarrow> read_value_visit_T I64 (read v) st
      | U64 v \<Rightarrow> read_value_visit_T U64 (read v) st
      | F32 v \<Rightarrow> read_value_visit_T F32 (read v) st
      | Vec2 v \<Rightarrow> read_value_visit_T Vec2 (read_array 2 v) st
      | Vec3 v \<Rightarrow> read_value_visit_T Vec3 (read_array 3 v) st
      | Vec4 v \<Rightarrow> read_value_visit_T Vec4 (read_array 4 v) st
      | Mtx44 v \<Rightarrow> read_value_visit_T Mtx44 (read_array 16 v) st
      | RGBA v \<Rightarrow> read_value_visit_T RGBA (read_array 4 v) st
      | String v \<Rightarrow> read_value_visit_T String (read_string v) st
      | Hash v \<Rightarrow> read_value_visit_T Hash (read_FNV1a v) st
      | File v \<Rightarrow> read_value_visit_T File (read_XXH64 v) st
      | Flag v \<Rightarrow> read_value_visit_T Flag (read v) st)"

text \<open>
  \<open>bool read_value_of(Value& value, Type type)\<close>. The recursion of the source is
  bounded here by its depth: \<open>fuel\<close> is the number of nested calls still allowed.
\<close>

fun read_value_of :: "TypeTable \<Rightarrow> nat \<Rightarrow> Type \<Rightarrow> BinBinaryReader \<Rightarrow> Value outcome" where
  "read_value_of tbl 0 type st = OutOfFuel"
| "read_value_of tbl (Suc fuel) type st =
     read_value_visit tbl (read_value_of tbl fuel) (from_type tbl type) st"

text \<open>
  \<open>bool read_entry(Hash& entryKeyHash, Embed& entry)\<close>: \<open>items\<close> is \<open>entry.items\<close> on
  entry; the result is the key hash read and the items of the entry.
\<close>

definition read_entry ::
  "TypeTable \<Rightarrow> nat \<Rightarrow> (32 word \<times> Value) list \<Rightarrow> BinBinaryReader \<Rightarrow>
   (32 word \<times> (32 word \<times> Value) list) outcome" where
  "read_entry tbl fuel items st =
     then_do (assert_read ''reader.read(entryLength)'' (read (0::32 word)) st) (\<lambda>entryLength st.
     let pos = position (reader st) in
     then_do (assert_read ''reader.read(entryKeyHash.value)'' (read_FNV1a 0) st) (\<lambda>entryKeyHash st.
     then_do (assert_read ''reader.read(count)'' (read (0::16 word)) st) (\<lambda>count st.
     then_do (read_fields (read_value_of tbl fuel) tbl (unat count) items st) (\<lambda>items st.
     then_do (assert_cond ''reader.position() == position + entryLength''
                (position (reader st) = pos + unat entryLength) st) (\<lambda>_ st.
     Done (entryKeyHash, items) st)))))"

text \<open>The loop \<open>for (uint32_t entryNameHash : entryNameHashes)\<close> of \<open>read_entries\<close>.\<close>

fun read_entries_loop ::
  "TypeTable \<Rightarrow> nat \<Rightarrow> 32 word list \<Rightarrow> (Value \<times> Value) list \<Rightarrow> BinBinaryReader \<Rightarrow>
   (Value \<times> Value) list outcome" where
  "read_entries_loop tbl fuel [] items st = Done items st"
| "read_entries_loop tbl fuel (entryNameHash # rest) items st =
     then_do (assert_call ''read_entry(entryKeyHash, entry)'' (read_entry tbl fuel []) st)
       (\<lambda>(entryKeyHash, entry_items) st.
     read_entries_loop tbl fuel rest
       (items @ [(Hash entryKeyHash, Embed entryNameHash entry_items)]) st)"

text \<open>\<open>bool read_entries()\<close>\<close>

definition read_entries :: "TypeTable \<Rightarrow> nat \<Rightarrow> BinBinaryReader \<Rightarrow> unit outcome" where
  "read_entries tbl fuel st =
     then_do (assert_read ''reader.read(entryCount)'' (read (0::32 word)) st) (\<lambda>entryCount st.
     then_do (assert_read ''reader.read(entryNameHashes, entryCount)''
                (read_vector ([]::32 word list) (unat entryCount)) st) (\<lambda>entryNameHashes st.
     then_do (read_entries_loop tbl fuel entryNameHashes [] st) (\<lambda>items st.
     Done () (emplace ''entries'' (Map_v (HASH tbl) (EMBED tbl) items) st))))"

text \<open>The loop \<open>for (uint32_t i = 0; i != linkedFilesCount; i++)\<close> of \<open>read_linked\<close>.\<close>

fun read_linked_loop :: "nat \<Rightarrow> Value list \<Rightarrow> BinBinaryReader \<Rightarrow> Value list outcome" where
  "read_linked_loop 0 items st = Done items st"
| "read_linked_loop (Suc n) items st =
     then_do (assert_read ''reader.read(linked.value)'' (read_string []) st) (\<lambda>linked st.
     read_linked_loop n (items @ [String linked]) st)"

text \<open>\<open>bool read_linked(bool hasLinks)\<close>\<close>

definition read_linked :: "TypeTable \<Rightarrow> bool \<Rightarrow> BinBinaryReader \<Rightarrow> unit outcome" where
  "read_linked tbl hasLinks st =
     then_do
       (if hasLinks then
          then_do (assert_read ''reader.read(linkedFilesCount)'' (read (0::32 word)) st)
            (\<lambda>linkedFilesCount st.
          read_linked_loop (unat linkedFilesCount) [] st)
        else Done [] st) (\<lambda>items st.
     Done () (emplace ''linked'' (List (STRING tbl) items) st))"

definition chars :: "string \<Rightarrow> byte list" where
  "chars s = map of_char s"

text \<open>\<open>bool read_sections()\<close>\<close>

definition read_sections :: "TypeTable \<Rightarrow> nat \<Rightarrow> BinBinaryReader \<Rightarrow> unit outcome" where
  "read_sections tbl fuel st =
     then_do (assert_read ''reader.read(magic)'' (read_array 4 [0, 0, 0, 0::8 word]) st) (\<lambda>magic st.
     then_do
       (if magic = chars ''PTCH'' then
          then_do (assert_read ''reader.read(unk)'' (read (0::64 word)) st) (\<lambda>unk st.
          then_do (assert_read ''reader.read(magic)'' (read_array 4 magic) st) (\<lambda>magic st.
          Done magic (emplace ''type'' (String (chars ''PTCH'')) st)))
        else Done magic (emplace ''type'' (String (chars ''PROP'')) st)) (\<lambda>magic st.
     then_do (assert_cond ''magic == std::array{ 'P', 'R', 'O', 'P' }''
                (magic = chars ''PROP'') st) (\<lambda>_ st.
     then_do (assert_read ''reader.read(version)'' (read (0::32 word)) st) (\<lambda>version st.
     let st = emplace ''version'' (U32 version) st in
     then_do (assert_call ''read_linked(version >= 2)'' (read_linked tbl (version \<ge> 2)) st) (\<lambda>_ st.
     then_do (assert_call ''read_entries()'' (read_entries tbl fuel) st) (\<lambda>_ st.
     then_do (assert_cond ''reader.cur_ == reader.cap_''
                (cur (reader st) = cap (reader st)) st) (\<lambda>_ st.
     Done () st)))))))"

text \<open>\<open>bool process()\<close>\<close>

definition process :: "TypeTable \<Rightarrow> nat \<Rightarrow> BinBinaryReader \<Rightarrow> unit outcome" where
  "process tbl fuel st =
     (let st = st\<lparr>bin := (bin st)\<lparr>sections := Map.empty\<rparr>\<rparr> in
      then_do (assert_call ''read_sections()'' (read_sections tbl fuel) st) (\<lambda>_ st.
      Done () st))"

text \<open>\<open>std::to_string\<close> of a \<open>ptrdiff_t\<close>.\<close>

fun to_string_nat :: "nat \<Rightarrow> string" where
  "to_string_nat n =
     (if n < 10 then [''0123456789'' ! n]
      else to_string_nat (n div 10) @ [''0123456789'' ! (n mod 10)])"

declare to_string_nat.simps [simp del]

definition to_string :: "int \<Rightarrow> string" where
  "to_string i = (if i < 0 then ''-'' @ to_string_nat (nat (- i)) else to_string_nat (nat i))"

text \<open>
  \<open>void Bin::read_binary(char const* data, size_t size)\<close>. The loop renders
  \<open>reader.error\<close> from its last record to its first; a record holds the pointer
  \<open>data + pos\<close>, so \<open>data - e->second\<close> is \<open>- pos\<close>. The result is the \<open>what()\<close> of the
  \<open>std::runtime_error\<close> thrown (\<open>Inl\<close>) or a normal return (\<open>Inr\<close>), with \<open>*this\<close> after
  the call. The buffer bounds the depth of the recursion, so the fuel
  \<open>Suc (length data)\<close> is never used up (\<open>read_binary_returns\<close>); \<open>None\<close> stands for a
  run cut off by the fuel.
\<close>

definition render :: "(string \<times> nat) list \<Rightarrow> string" where
  "render errs =
     foldl (\<lambda>error e. error @ fst e @ '' @ '' @ to_string (0 - int (snd e)) @ [CHR 0x0A])
       [] (rev errs)"

definition read_binary :: "TypeTable \<Rightarrow> Bin \<Rightarrow> byte list \<Rightarrow> ((string + unit) \<times> Bin) option" where
  "read_binary tbl this data =
     (case process tbl (Suc (length data))
             \<lparr>bin = this, reader = \<lparr>bytes = data, cur = 0\<rparr>, error = []\<rparr> of
        OutOfFuel \<Rightarrow> None
      | Failed st \<Rightarrow> Some (Inl (render (error st)), bin st)
      | Done _ st \<Rightarrow> Some (Inr (), bin st))"

subsection \<open>The type table of the spec\<close>

text \<open>
  Modelled from the spec: \<open>bin.hpp\<close>, which declares the enumerators of \<open>Type\<close>,
  \<open>is_primitive\<close>, \<open>is_container\<close>, \<open>MAX_PRIMITIVE\<close>, \<open>MAX_COMPLEX\<close> and
  \<open>ValueHelper::from_type\<close>, is not among the sources. The spec names the container
  tags (List, List2, Option, Map, Embed, Pointer), calls every other tag
  primitive (scalar), and has the category of a tag encoded in a bit of its byte,
  with one valid range for each category. It does not give the bytes: here the
  scalars are numbered from 0 in the order of the spec's data model, and the
  containers from \<open>0x80\<close>. \<open>from_type\<close> gives the alternative of a tag, value
  initialised, and \<open>None\<close> for a byte that is no tag. The theorems below hold for
  every table; this one serves where a concrete table is needed.
\<close>

definition tags :: "(Type \<times> Value) list" where
  "tags =
     [(0x00, None_v), (0x01, Bool 0), (0x02, I8 0), (0x03, U8 0), (0x04, I16 0), (0x05, U16 0),
      (0x06, I32 0), (0x07, U32 0), (0x08, I64 0), (0x09, U64 0), (0x0A, F32 0),
      (0x0B, Vec2 [0, 0]), (0x0C, Vec3 [0, 0, 0]), (0x0D, Vec4 [0, 0, 0, 0]),
      (0x0E, Mtx44 [0, 0, 0, 0, 0, 0, 0, 0, 0, 0, 0, 0, 0, 0, 0, 0]), (0x0F, RGBA [0, 0, 0, 0]),
      (0x10, String []), (0x11, Hash 0), (0x12, File 0), (0x13, Flag 0),
      (0x80, List 0 []), (0x81, List2 0 []), (0x82, Option_v 0 []), (0x83, Map_v 0 0 []),
      (0x84, Embed 0 []), (0x85, Pointer 0 [])]"

definition spec_table :: TypeTable where
  "spec_table =
     \<lparr>is_primitive = (\<lambda>t. \<not> bit t 7),
      is_container = (\<lambda>t. t \<in> {0x80, 0x81, 0x82, 0x83, 0x84, 0x85}),
      MAX_PRIMITIVE = 0x13,
      MAX_COMPLEX = 0x85,
      from_type = (\<lambda>t. case map_of tags t of None \<Rightarrow> None_v | Some v \<Rightarrow> v),
      STRING = 0x10,
      HASH = 0x11,
      EMBED = 0x84\<rparr>"

subsection \<open>Notions used in the statements\<close>

text \<open>The 32-bit integer that the buffer holds at an offset.\<close>

definition u32_at :: "nat \<Rightarrow> BinaryReader \<Rightarrow> 32 word" where
  "u32_at off r = le_word (take 4 (drop off (bytes r)))"

text \<open>An \<open>Embed\<close> read as the \<open>Pointer\<close> of the same name and items.\<close>

fun as_Pointer :: "Value \<Rightarrow> Value" where
  "as_Pointer (Embed name items) = Pointer name items"
| "as_Pointer v = v"

text \<open>A reader over \<open>data\<close> at offset \<open>pos\<close>, with an empty document and no error record.\<close>

definition start :: "byte list \<Rightarrow> nat \<Rightarrow> BinBinaryReader" where
  "start data pos =
     \<lparr>bin = \<lparr>sections = Map.empty\<rparr>, reader = \<lparr>bytes = data, cur = pos\<rparr>, error = []\<rparr>"

text \<open>
  A read of the \<open>BinaryReader\<close> that keeps the buffer, moves the cursor forward only and
  within the buffer, and on success has consumed at least \<open>m\<close> bytes and depends on
  nothing but the bytes it has consumed.
\<close>

definition reads :: "nat \<Rightarrow> (BinaryReader \<Rightarrow> bool \<times> 'a \<times> BinaryReader) \<Rightarrow> bool" where
  "reads m rd \<longleftrightarrow>
     (\<forall>r ok v r'. cur r \<le> cap r \<longrightarrow> rd r = (ok, v, r') \<longrightarrow>
        bytes r' = bytes r \<and> cur r \<le> cur r' \<and> cur r' \<le> cap r \<and>
        (ok \<longrightarrow>
           (\<exists>n\<ge>m. r' = advance n r \<and>
              (\<forall>r2. cur r2 = cur r \<and> cur r2 + n \<le> cap r2 \<and> peek n r2 = peek n r \<longrightarrow>
                 rd r2 = (True, v, advance n r2)))))"

text \<open>
  A member function that reads values: it may run out of fuel only where at least
  \<open>f\<close> bytes are left, a failure leaves the document and the buffer as they were, and a
  success changes nothing but the cursor and depends on nothing but the bytes consumed.
\<close>

definition frames :: "nat \<Rightarrow> (BinBinaryReader \<Rightarrow> 'a outcome) \<Rightarrow> bool" where
  "frames f p \<longleftrightarrow>
     (\<forall>st. cur (reader st) \<le> cap (reader st) \<longrightarrow>
        (case p st of
           OutOfFuel \<Rightarrow> f \<le> cap (reader st) - cur (reader st)
         | Failed st' \<Rightarrow>
             bin st' = bin st \<and> bytes (reader st') = bytes (reader st) \<and>
             cur (reader st) \<le> cur (reader st') \<and> cur (reader st') \<le> cap (reader st)
         | Done v st' \<Rightarrow>
             (\<exists>n. st' = st\<lparr>reader := advance n (reader st)\<rparr> \<and>
                cur (reader st) + n \<le> cap (reader st) \<and>
                (\<forall>st2. cur (reader st2) = cur (reader st) \<and>
                       cur (reader st2) + n \<le> cap (reader st2) \<and>
                       peek n (reader st2) = peek n (reader st) \<longrightarrow>
                       p st2 = Done v (st2\<lparr>reader := advance n (reader st2)\<rparr>)))))"

text \<open>What a decoded value may not be: \<open>None\<close>, or a holder of \<open>None\<close> at any depth.\<close>

fun contains_None :: "Value \<Rightarrow> bool" where
  "contains_None None_v = True"
| "contains_None (List valueType items) = (\<exists>v\<in>set items. contains_None v)"
| "contains_None (List2 valueType items) = (\<exists>v\<in>set items. contains_None v)"
| "contains_None (Option_v valueType items) = (\<exists>v\<in>set items. contains_None v)"
| "contains_None (Map_v keyType valueType items) =
     (\<exists>kv\<in>set items. contains_None (fst kv) \<or> contains_None (snd kv))"
| "contains_None (Embed name items) = (\<exists>f\<in>set items. contains_None (snd f))"
| "contains_None (Pointer name items) = (\<exists>f\<in>set items. contains_None (snd f))"
| "contains_None v = False"

text \<open>
  The nesting rule at every depth: the element type of a \<open>List\<close>, \<open>List2\<close> or \<open>Option\<close> and
  the value type of a \<open>Map\<close> are no container tags, and the key type of a \<open>Map\<close> is
  primitive.
\<close>

fun nesting_ok :: "TypeTable \<Rightarrow> Value \<Rightarrow> bool" where
  "nesting_ok tbl (List valueType items) =
     (\<not> is_container tbl valueType \<and> (\<forall>v\<in>set items. nesting_ok tbl v))"
| "nesting_ok tbl (List2 valueType items) =
     (\<not> is_container tbl valueType \<and> (\<forall>v\<in>set items. nesting_ok tbl v))"
| "nesting_ok tbl (Option_v valueType items) =
     (\<not> is_container tbl valueType \<and> (\<forall>v\<in>set items. nesting_ok tbl v))"
| "nesting_ok tbl (Map_v keyType valueType items) =
     (is_primitive tbl keyType \<and> \<not> is_container tbl valueType \<and>
      (\<forall>kv\<in>set items. nesting_ok tbl (fst kv) \<and> nesting_ok tbl (snd kv)))"
| "nesting_ok tbl (Embed name items) = (\<forall>f\<in>set items. nesting_ok tbl (snd f))"
| "nesting_ok tbl (Pointer name items) = (\<forall>f\<in>set items. nesting_ok tbl (snd f))"
| "nesting_ok tbl v = True"

text \<open>
  \<open>ValueHelper::from_type\<close> is taken to return value-initialised alternatives: a
  container without items.
\<close>

fun no_items :: "Value \<Rightarrow> bool" where
  "no_items (List valueType items) = (items = [])"
| "no_items (List2 valueType items) = (items = [])"
| "no_items (Option_v valueType items) = (items = [])"
| "no_items (Map_v keyType valueType items) = (items = [])"
| "no_items (Embed name items) = (items = [])"
| "no_items (Pointer name items) = (items = [])"
| "no_items v = True"

definition value_initialised :: "TypeTable \<Rightarrow> bool" where
  "value_initialised tbl \<longleftrightarrow> (\<forall>t. no_items (from_type tbl t))"

definition good :: "TypeTable \<Rightarrow> Value \<Rightarrow> bool" where
  "good tbl v \<longleftrightarrow> \<not> contains_None v \<and> nesting_ok tbl v"

text \<open>
  The sets of section names that a document can have when a decode stops, and the
  member functions that take a document from the section names \<open>D\<close> to \<open>D'\<close> when they
  succeed and leave one of those sets when they fail.
\<close>

definition partial_docs :: "string set set" where
  "partial_docs =
     {{}, {''type''}, {''type'', ''version''}, {''type'', ''version'', ''linked''},
      {''type'', ''version'', ''linked'', ''entries''}}"

definition emplaces ::
  "string set \<Rightarrow> string set \<Rightarrow> (BinBinaryReader \<Rightarrow> 'a outcome) \<Rightarrow> bool" where
  "emplaces D D' p \<longleftrightarrow>
     (\<forall>st. cur (reader st) \<le> cap (reader st) \<and> dom (sections (bin st)) = D \<longrightarrow>
        (case p st of
           OutOfFuel \<Rightarrow> True
         | Failed st' \<Rightarrow> dom (sections (bin st')) \<in> partial_docs
         | Done v st' \<Rightarrow>
             dom (sections (bin st')) = D' \<and> cur (reader st') \<le> cap (reader st')))"

text \<open>
  A reader \<open>r'\<close> that a read or a decode leaves behind when started at \<open>r\<close>: the same
  buffer, the cursor not moved back and not beyond the end of the buffer.
\<close>

definition within :: "BinaryReader \<Rightarrow> BinaryReader \<Rightarrow> bool" where
  "within r r' \<longleftrightarrow> bytes r' = bytes r \<and> cur r \<le> cur r' \<and> cur r' \<le> cap r"

text \<open>
  A member function that may also emplace sections: it may run out of fuel only where at
  least \<open>f\<close> bytes are left, it leaves the reader within the buffer, and a success
  depends on nothing but the bytes consumed and the document: from a state with the same
  cursor, the same bytes there and the same document it succeeds with the same result,
  or fails.
\<close>

definition stable :: "nat \<Rightarrow> (BinBinaryReader \<Rightarrow> 'a outcome) \<Rightarrow> bool" where
  "stable f p \<longleftrightarrow>
     (\<forall>st. cur (reader st) \<le> cap (reader st) \<longrightarrow>
        (case p st of
           OutOfFuel \<Rightarrow> f \<le> cap (reader st) - cur (reader st)
         | Failed st' \<Rightarrow> within (reader st) (reader st')
         | Done v st' \<Rightarrow>
             (\<exists>n. reader st' = advance n (reader st) \<and>
                cur (reader st) + n \<le> cap (reader st) \<and>
                (\<forall>st2. cur (reader st2) = cur (reader st) \<and>
                       cur (reader st2) + n \<le> cap (reader st2) \<and>
                       peek n (reader st2) = peek n (reader st) \<and> bin st2 = bin st \<longrightarrow>
                       (\<exists>st2'. p st2 = Done v st2' \<and> reader st2' = advance n (reader st2) \<and>
                               bin st2' = bin st') \<or>
                       (\<exists>st2'. p st2 = Failed st2')))))"

text \<open>\<open>q\<close> does what \<open>p\<close> does wherever \<open>p\<close> does not run out of fuel.\<close>

definition refines :: "(BinBinaryReader \<Rightarrow> 'a outcome) \<Rightarrow> (BinBinaryReader \<Rightarrow> 'a outcome) \<Rightarrow> bool" where
  "refines p q \<longleftrightarrow> (\<forall>st. p st = OutOfFuel \<or> q st = p st)"

text \<open>The state over the buffer in which the byte at offset \<open>i\<close> is replaced by \<open>x\<close>.\<close>

definition poke :: "nat \<Rightarrow> byte \<Rightarrow> BinBinaryReader \<Rightarrow> BinBinaryReader" where
  "poke i x st = st\<lparr>reader := (reader st)\<lparr>bytes := (bytes (reader st))[i := x]\<rparr>\<rparr>"

text \<open>
  What \<open>read_sections\<close>, started in \<open>st\<close>, leaves in \<open>st'\<close> when it fails: the last error
  record \<open>(c, p)\<close> is the failing check of \<open>read_sections\<close> itself, and the document holds
  the sections emplaced before that check. \<open>ty\<close> is the type emplaced for the magic at the
  cursor and \<open>off\<close> the offset of the version behind it.
\<close>

definition failed_at ::
  "TypeTable \<Rightarrow> BinBinaryReader \<Rightarrow> BinBinaryReader \<Rightarrow> (string \<times> nat) list \<Rightarrow> string \<Rightarrow> nat \<Rightarrow>
   string \<Rightarrow> nat \<Rightarrow> bool" where
  "failed_at tbl st st' errs c p ty off \<longleftrightarrow>
     error st' = errs @ [(c, p)] \<and>
     (ty = ''PROP'' \<and> off = 4 \<and> peek 4 (reader st) \<noteq> chars ''PTCH'' \<or>
      ty = ''PTCH'' \<and> off = 16 \<and> peek 4 (reader st) = chars ''PTCH'') \<and>
     ((c = ''reader.read(magic)'' \<or> c = ''reader.read(unk)'') \<and>
        sections (bin st') = Map.empty \<or>
      (c = ''magic == std::array{ 'P', 'R', 'O', 'P' }'' \<or> c = ''reader.read(version)'') \<and>
        sections (bin st') = [''type'' \<mapsto> String (chars ty)] \<or>
      c = ''read_linked(version >= 2)'' \<and>
        sections (bin st') =
          [''type'' \<mapsto> String (chars ty),
           ''version'' \<mapsto> U32 (u32_at (cur (reader st) + off) (reader st))] \<or>
      c = ''read_entries()'' \<and>
        (\<exists>linked. sections (bin st') =
            [''type'' \<mapsto> String (chars ty),
             ''version'' \<mapsto> U32 (u32_at (cur (reader st) + off) (reader st)),
             ''linked'' \<mapsto> List (STRING tbl) linked] \<and>
           (\<forall>v\<in>set linked. \<exists>s. v = String s) \<and>
           (u32_at (cur (reader st) + off) (reader st) < 2 \<longrightarrow> linked = [])) \<or>
      c = ''reader.cur_ == reader.cap_'' \<and> p < cap (reader st) \<and>
        (\<exists>linked entries.
           sections (bin st') =
             [''type'' \<mapsto> String (chars ty),
              ''version'' \<mapsto> U32 (u32_at (cur (reader st) + off) (reader st)),
              ''linked'' \<mapsto> List (STRING tbl) linked,
              ''entries'' \<mapsto> Map_v (HASH tbl) (EMBED tbl) entries] \<and>
           (\<forall>v\<in>set linked. \<exists>s. v = String s) \<and>
           (u32_at (cur (reader st) + off) (reader st) < 2 \<longrightarrow> linked = []) \<and>
           (\<forall>kv\<in>set entries. \<exists>h n fs. kv = (Hash h, Embed n fs) \<and>
              (value_initialised tbl \<longrightarrow> (\<forall>f\<in>set fs. good tbl (snd f))))))"

text \<open>
  Four buffers: the empty document, its first seven bytes, a document of version 2 with one linked file, and a
  document with one entry of two fields, a \<open>U8\<close> and a \<open>List\<close> of two \<open>I16\<close> (tags of
  \<open>spec_table\<close>).
\<close>

definition doc_a :: "byte list" where
  "doc_a = chars ''PROP'' @ [0, 0, 0, 0] @ [0, 0, 0, 0]"

definition doc_t :: "byte list" where
  "doc_t = chars ''PROP'' @ [0, 0, 0]"

definition doc_b :: "byte list" where
  "doc_b = chars ''PROP'' @ [2, 0, 0, 0] @ [1, 0, 0, 0] @ [2, 0] @ chars ''ab'' @ [0, 0, 0, 0]"

definition doc_e :: "byte list" where
  "doc_e = chars ''PROP'' @ [0, 0, 0, 0] @ [1, 0, 0, 0] @ [0xAA, 0, 0, 0] @
     [30, 0, 0, 0] @ [0xBB, 0, 0, 0] @ [2, 0] @
     [1, 0, 0, 0] @ [0x03, 7] @
     [2, 0, 0, 0] @ [0x80, 0x04] @ [8, 0, 0, 0] @ [2, 0, 0, 0] @ [1, 0, 2, 0]"






section \<open>Properties\<close>

subsection \<open>The reads of \<open>BinaryReader\<close>\<close>

lemma read_True_iff:
  "read v r = (True, v', r') \<longleftrightarrow>
     cur r + sizeof v \<le> cap r \<and> v' = le_word (peek (sizeof v) r) \<and> r' = advance (sizeof v) r"
  by (auto simp: read_def)

lemma read_False_iff:
  "read v r = (False, v', r') \<longleftrightarrow> cap r < cur r + sizeof v \<and> v' = v \<and> r' = r"
  by (auto simp: read_def)

lemma read_array_False_iff:
  "read_array n (a::'a::len word list) r = (False, a', r') \<longleftrightarrow>
     cap r < cur r + sizeof (0::'a word) * n \<and> a' = a \<and> r' = r"
  by (auto simp: read_array_def Let_def)

lemma read_vector_False_iff:
  "read_vector (a::'a::len word list) n r = (False, a', r') \<longleftrightarrow>
     cap r < cur r + sizeof (0::'a word) * n \<and> a' = a \<and> r' = r"
  by (auto simp: read_vector_def Let_def)

lemma read_FNV1a_eq: "read_FNV1a h r = (ok, h', r') \<longleftrightarrow>
   (if ok then read (0::32 word) r = (True, h', r') else cap r < cur r + 4 \<and> h' = h \<and> r' = r)"
  by (auto simp: read_FNV1a_def read_def sizeof_def split: prod.splits bool.splits)

lemma read_XXH64_eq: "read_XXH64 h r = (ok, h', r') \<longleftrightarrow>
   (if ok then read (0::64 word) r = (True, h', r') else cap r < cur r + 8 \<and> h' = h \<and> r' = r)"
  by (auto simp: read_XXH64_def read_def sizeof_def split: prod.splits bool.splits)

lemma read_string_False_iff:
  "read_string s r = (False, s', r') \<longleftrightarrow>
     s' = s \<and>
     (if cap r < cur r + 2 then r' = r
      else r' = advance 2 r \<and> cap r < cur r + 2 + unat (le_word (peek 2 r) :: 16 word))"
  by (auto simp: read_string_def read_def sizeof_def advance_def cap_def split: prod.splits bool.splits if_splits)

lemma read_Type_False_iff:
  "read_Type tbl t r = (False, t', r') \<longleftrightarrow>
     (if cap r < cur r + 1 then t' = t \<and> r' = r
      else t' = le_word (peek 1 r) \<and> r' = advance 1 r \<and>
           \<not> (if is_primitive tbl t' then t' \<le> MAX_PRIMITIVE tbl else t' \<le> MAX_COMPLEX tbl))"
  by (auto simp: read_Type_def read_def sizeof_def split: prod.splits bool.splits if_splits)

lemma read_array_True_iff:
  "read_array n (a::'a::len word list) r = (True, a', r') \<longleftrightarrow>
     cur r + sizeof (0::'a word) * n \<le> cap r \<and>
     a' = map le_word (chunks (sizeof (0::'a word)) n (peek (sizeof (0::'a word) * n) r)) \<and>
     r' = advance (sizeof (0::'a word) * n) r"
  by (auto simp: read_array_def Let_def)

lemma read_vector_True_iff:
  "read_vector (a::'a::len word list) n r = (True, a', r') \<longleftrightarrow>
     cur r + sizeof (0::'a word) * n \<le> cap r \<and>
     a' = map le_word (chunks (sizeof (0::'a word)) n (peek (sizeof (0::'a word) * n) r)) \<and>
     r' = advance (sizeof (0::'a word) * n) r"
  by (auto simp: read_vector_def Let_def)

lemma cap_advance [simp]: "cap (advance n r) = cap r"
  by (simp add: cap_def advance_def)

lemma cur_advance [simp]: "cur (advance n r) = cur r + n"
  by (simp add: advance_def)

lemma bytes_advance [simp]: "bytes (advance n r) = bytes r"
  by (simp add: advance_def)

lemma advance_advance [simp]: "advance m (advance n r) = advance (n + m) r"
  by (simp add: advance_def add.assoc)

lemma advance_0 [simp]: "advance 0 r = r"
  by (simp add: advance_def)

lemma read_string_True_iff:
  "read_string s r = (True, s', r') \<longleftrightarrow>
     cur r + 2 + unat (le_word (peek 2 r) :: 16 word) \<le> cap r \<and>
     s' = peek (unat (le_word (peek 2 r) :: 16 word)) (advance 2 r) \<and>
     r' = advance (2 + unat (le_word (peek 2 r) :: 16 word)) r"
  by (auto simp: read_string_def read_def sizeof_def split: prod.splits bool.splits if_splits)

lemma read_Type_True_iff:
  "read_Type tbl t r = (True, t', r') \<longleftrightarrow>
     cur r + 1 \<le> cap r \<and> t' = le_word (peek 1 r) \<and> r' = advance 1 r \<and>
     (if is_primitive tbl t' then t' \<le> MAX_PRIMITIVE tbl else t' \<le> MAX_COMPLEX tbl)"
  by (auto simp: read_Type_def read_def sizeof_def split: prod.splits bool.splits if_splits)

lemma read_FNV1a_True_iff:
  "read_FNV1a h r = (True, h', r') \<longleftrightarrow>
     cur r + 4 \<le> cap r \<and> h' = le_word (peek 4 r) \<and> r' = advance 4 r"
  by (auto simp: read_FNV1a_def read_def sizeof_def split: prod.splits bool.splits if_splits)

lemma read_XXH64_True_iff:
  "read_XXH64 h r = (True, h', r') \<longleftrightarrow>
     cur r + 8 \<le> cap r \<and> h' = le_word (peek 8 r) \<and> r' = advance 8 r"
  by (auto simp: read_XXH64_def read_def sizeof_def split: prod.splits bool.splits if_splits)

lemmas read_True_iffs = read_True_iff read_array_True_iff read_vector_True_iff read_string_True_iff
  read_Type_True_iff read_FNV1a_True_iff read_XXH64_True_iff

lemma then_do_Done_iff:
  "then_do m k = Done w st' \<longleftrightarrow> (\<exists>v st1. m = Done v st1 \<and> k v st1 = Done w st')"
  by (cases m) auto

lemma assert_read_Done_iff:
  "assert_read msg rd st = Done v st' \<longleftrightarrow> (\<exists>r. rd (reader st) = (True, v, r) \<and> st' = st\<lparr>reader := r\<rparr>)"
  by (auto simp: assert_read_def fail_msg_def Let_def split: prod.splits)

lemma assert_cond_Done_iff:
  "assert_cond msg c st = Done u st' \<longleftrightarrow> c \<and> st' = st"
  by (auto simp: assert_cond_def fail_msg_def)

lemma assert_call_Done_iff:
  "assert_call msg f st = Done v st' \<longleftrightarrow> f st = Done v st'"
  by (auto simp: assert_call_def fail_msg_def Let_def split: outcome.splits)

lemmas Done_iffs = then_do_Done_iff assert_read_Done_iff assert_cond_Done_iff assert_call_Done_iff

lemma assert_read_True:
  "rd (reader st) = (True, v, r) \<Longrightarrow> assert_read msg rd st = Done v (st\<lparr>reader := r\<rparr>)"
  by (simp add: assert_read_def)

lemma assert_read_False:
  "rd (reader st) = (False, v, r) \<Longrightarrow>
   assert_read msg rd st = fail_msg msg (cur (reader st)) (st\<lparr>reader := r\<rparr>)"
  by (simp add: assert_read_def)

lemmas run_defs =
  start_def read_entry_def read_value_visit_def read_value_visit_None_def read_value_visit_Embed_def
  read_value_visit_Pointer_def read_value_visit_Option_def read_value_visit_List_def
  read_value_visit_List2_def read_value_visit_Map_def read_value_visit_T_def
  assert_read_def assert_call_def assert_cond_def fail_msg_def
  read_def read_array_def read_vector_def read_string_def read_Type_def read_FNV1a_def
  read_XXH64_def sizeof_def cap_def peek_def advance_def position_def
  spec_table_def tags_def Let_def

lemma map_outcome_then_do:
  "map_outcome f (then_do m k) = then_do m (\<lambda>v st. map_outcome f (k v st))"
  by (cases m) auto

subsection \<open>Framing and locality of the value decoders\<close>

lemma take_peek: "m \<le> n \<Longrightarrow> take m (peek n r) = peek m r"
  by (simp add: peek_def min_def)

lemma peek_take:
  assumes "peek n r2 = peek n r" "m \<le> n"
  shows "peek m r2 = peek m r"
proof -
  have "take m (peek n r2) = take m (peek n r)"
    using assms(1) by simp
  then show ?thesis
    using assms(2) by (simp add: take_peek)
qed

lemma peek_drop:
  assumes "peek (n + m) r2 = peek (n + m) r" "cur r2 = cur r"
  shows "peek m (advance n r2) = peek m (advance n r)"
proof -
  have "drop n (peek (n + m) r2) = drop n (peek (n + m) r)"
    using assms by simp
  then show ?thesis
    using assms(2) by (simp add: peek_def advance_def drop_take add.commute)
qed

lemma reads_read: "reads (sizeof v) (read v)"
  unfolding reads_def
  by (auto simp: read_def cap_def advance_def intro!: exI [of _ "sizeof v"])

lemma reads_read_array: "reads 0 (read_array n a)"
  unfolding reads_def
  by (auto simp: read_array_def Let_def cap_def advance_def)

lemma reads_read_vector: "reads 0 (read_vector a n)"
  unfolding reads_def
  by (auto simp: read_vector_def Let_def cap_def advance_def)

lemma reads_read_FNV1a: "reads 4 (read_FNV1a h)"
  unfolding reads_def
  by (auto simp: read_FNV1a_def read_def sizeof_def cap_def advance_def intro!: exI [of _ 4])

lemma reads_read_XXH64: "reads 8 (read_XXH64 h)"
  unfolding reads_def
  by (auto simp: read_XXH64_def read_def sizeof_def cap_def advance_def intro!: exI [of _ 8])

lemma reads_read_Type: "reads 1 (read_Type tbl t)"
  unfolding reads_def
  by (auto simp: read_Type_def read_def sizeof_def cap_def advance_def peek_def
      intro!: exI [of _ 1])

lemma readsD:
  assumes "reads m rd" "cur r \<le> cap r" "rd r = (ok, v, r')"
  shows "bytes r' = bytes r" "cur r \<le> cur r'" "cur r' \<le> cap r"
  using assms(1) [unfolded reads_def, rule_format, OF assms(2,3)] by simp_all

lemma reads_TrueD:
  assumes "reads m rd" "cur r \<le> cap r" "rd r = (True, v, r')"
  shows "\<exists>n\<ge>m. r' = advance n r \<and> cur r + n \<le> cap r \<and>
           (\<forall>r2. cur r2 = cur r \<and> cur r2 + n \<le> cap r2 \<and> peek n r2 = peek n r \<longrightarrow>
              rd r2 = (True, v, advance n r2))"
proof -
  from assms(1) [unfolded reads_def, rule_format, OF assms(2,3)]
  obtain n where n: "n \<ge> m" "r' = advance n r"
    "\<forall>r2. cur r2 = cur r \<and> cur r2 + n \<le> cap r2 \<and> peek n r2 = peek n r \<longrightarrow>
              rd r2 = (True, v, advance n r2)"
    by blast
  have "cur r' \<le> cap r"
    using assms by (rule readsD)
  with n(2) have "cur r + n \<le> cap r" by simp
  with n show ?thesis by blast
qed

lemma framesI:
  assumes "\<And>st. cur (reader st) \<le> cap (reader st) \<Longrightarrow> p st = OutOfFuel \<Longrightarrow>
             f \<le> cap (reader st) - cur (reader st)"
    and "\<And>st st'. cur (reader st) \<le> cap (reader st) \<Longrightarrow> p st = Failed st' \<Longrightarrow>
             bin st' = bin st \<and> bytes (reader st') = bytes (reader st) \<and>
             cur (reader st) \<le> cur (reader st') \<and> cur (reader st') \<le> cap (reader st)"
    and "\<And>st v st'. cur (reader st) \<le> cap (reader st) \<Longrightarrow> p st = Done v st' \<Longrightarrow>
             \<exists>n. st' = st\<lparr>reader := advance n (reader st)\<rparr> \<and>
                cur (reader st) + n \<le> cap (reader st) \<and>
                (\<forall>st2. cur (reader st2) = cur (reader st) \<and>
                       cur (reader st2) + n \<le> cap (reader st2) \<and>
                       peek n (reader st2) = peek n (reader st) \<longrightarrow>
                       p st2 = Done v (st2\<lparr>reader := advance n (reader st2)\<rparr>))"
  shows "frames f p"
  unfolding frames_def
proof (intro allI impI)
  fix st :: BinBinaryReader
  assume "cur (reader st) \<le> cap (reader st)"
  then show "case p st of
           OutOfFuel \<Rightarrow> f \<le> cap (reader st) - cur (reader st)
         | Failed st' \<Rightarrow>
             bin st' = bin st \<and> bytes (reader st') = bytes (reader st) \<and>
             cur (reader st) \<le> cur (reader st') \<and> cur (reader st') \<le> cap (reader st)
         | Done v st' \<Rightarrow>
             (\<exists>n. st' = st\<lparr>reader := advance n (reader st)\<rparr> \<and>
                cur (reader st) + n \<le> cap (reader st) \<and>
                (\<forall>st2. cur (reader st2) = cur (reader st) \<and>
                       cur (reader st2) + n \<le> cap (reader st2) \<and>
                       peek n (reader st2) = peek n (reader st) \<longrightarrow>
                       p st2 = Done v (st2\<lparr>reader := advance n (reader st2)\<rparr>)))"
    using assms [of st] by (cases "p st") simp_all
qed

lemma frames_OutOfFuelD:
  "frames f p \<Longrightarrow> cur (reader st) \<le> cap (reader st) \<Longrightarrow> p st = OutOfFuel \<Longrightarrow>
   f \<le> cap (reader st) - cur (reader st)"
  unfolding frames_def by (drule spec [of _ st]) simp

lemma frames_FailedD:
  "frames f p \<Longrightarrow> cur (reader st) \<le> cap (reader st) \<Longrightarrow> p st = Failed st' \<Longrightarrow>
   bin st' = bin st \<and> bytes (reader st') = bytes (reader st) \<and>
   cur (reader st) \<le> cur (reader st') \<and> cur (reader st') \<le> cap (reader st)"
  unfolding frames_def by (drule spec [of _ st]) simp

lemma frames_DoneD:
  "frames f p \<Longrightarrow> cur (reader st) \<le> cap (reader st) \<Longrightarrow> p st = Done v st' \<Longrightarrow>
   \<exists>n. st' = st\<lparr>reader := advance n (reader st)\<rparr> \<and>
      cur (reader st) + n \<le> cap (reader st) \<and>
      (\<forall>st2. cur (reader st2) = cur (reader st) \<and>
             cur (reader st2) + n \<le> cap (reader st2) \<and>
             peek n (reader st2) = peek n (reader st) \<longrightarrow>
             p st2 = Done v (st2\<lparr>reader := advance n (reader st2)\<rparr>))"
  unfolding frames_def by (drule spec [of _ st]) simp

lemma frames_Done: "frames f (Done v)"
  by (rule framesI) (auto intro: exI [of _ 0])

lemma frames_weaken: "frames f p \<Longrightarrow> g \<le> f \<Longrightarrow> frames g p"
  apply (rule framesI)
    apply (drule (2) frames_OutOfFuelD, simp)
   apply (drule (2) frames_FailedD, simp)
  apply (drule (2) frames_DoneD, simp)
  done

lemma then_do_Failed_iff:
  "then_do m k = Failed st' \<longleftrightarrow> m = Failed st' \<or> (\<exists>v st1. m = Done v st1 \<and> k v st1 = Failed st')"
  by (cases m) auto

lemma then_do_OutOfFuel_iff:
  "then_do m k = OutOfFuel \<longleftrightarrow> m = OutOfFuel \<or> (\<exists>v st1. m = Done v st1 \<and> k v st1 = OutOfFuel)"
  by (cases m) auto

lemma assert_read_Failed_iff:
  "assert_read msg rd st = Failed st' \<longleftrightarrow>
     (\<exists>v r. rd (reader st) = (False, v, r) \<and>
        st' = st\<lparr>reader := r, error := error st @ [(msg, cur (reader st))]\<rparr>)"
  by (auto simp: assert_read_def fail_msg_def Let_def split: prod.splits)

lemma assert_read_not_OutOfFuel [simp]: "assert_read msg rd st \<noteq> OutOfFuel"
  by (auto simp: assert_read_def fail_msg_def Let_def split: prod.splits)

lemma assert_cond_Failed_iff:
  "assert_cond msg c st = Failed st' \<longleftrightarrow>
     \<not> c \<and> st' = st\<lparr>error := error st @ [(msg, cur (reader st))]\<rparr>"
  by (auto simp: assert_cond_def fail_msg_def)

lemma assert_cond_not_OutOfFuel [simp]: "assert_cond msg c st \<noteq> OutOfFuel"
  by (auto simp: assert_cond_def fail_msg_def)

lemma assert_call_Failed_iff:
  "assert_call msg f st = Failed st' \<longleftrightarrow>
     (\<exists>st1. f st = Failed st1 \<and> st' = st1\<lparr>error := error st1 @ [(msg, cur (reader st))]\<rparr>)"
  by (auto simp: assert_call_def fail_msg_def Let_def split: outcome.splits)

lemma assert_call_OutOfFuel_iff:
  "assert_call msg f st = OutOfFuel \<longleftrightarrow> f st = OutOfFuel"
  by (auto simp: assert_call_def fail_msg_def Let_def split: outcome.splits)

lemma frames_assert_read:
  assumes rd: "reads m rd"
  shows "frames f (assert_read msg rd)"
proof (rule framesI)
  fix st :: BinBinaryReader
  assume "assert_read msg rd st = OutOfFuel"
  then show "f \<le> cap (reader st) - cur (reader st)" by simp
next
  fix st st' :: BinBinaryReader
  assume le: "cur (reader st) \<le> cap (reader st)" and "assert_read msg rd st = Failed st'"
  then obtain v r where r: "rd (reader st) = (False, v, r)"
    and st': "st' = st\<lparr>reader := r, error := error st @ [(msg, cur (reader st))]\<rparr>"
    by (auto simp: assert_read_Failed_iff)
  from readsD [OF rd le r] st'
  show "bin st' = bin st \<and> bytes (reader st') = bytes (reader st) \<and>
        cur (reader st) \<le> cur (reader st') \<and> cur (reader st') \<le> cap (reader st)"
    by simp
next
  fix st st' :: BinBinaryReader and v
  assume le: "cur (reader st) \<le> cap (reader st)" and "assert_read msg rd st = Done v st'"
  then obtain r where r: "rd (reader st) = (True, v, r)" and st': "st' = st\<lparr>reader := r\<rparr>"
    by (auto simp: assert_read_Done_iff)
  from reads_TrueD [OF rd le r] obtain n where n: "r = advance n (reader st)"
    "cur (reader st) + n \<le> cap (reader st)"
    "\<forall>r2. cur r2 = cur (reader st) \<and> cur r2 + n \<le> cap r2 \<and> peek n r2 = peek n (reader st) \<longrightarrow>
        rd r2 = (True, v, advance n r2)"
    by blast
  show "\<exists>n. st' = st\<lparr>reader := advance n (reader st)\<rparr> \<and>
          cur (reader st) + n \<le> cap (reader st) \<and>
          (\<forall>st2. cur (reader st2) = cur (reader st) \<and>
                 cur (reader st2) + n \<le> cap (reader st2) \<and>
                 peek n (reader st2) = peek n (reader st) \<longrightarrow>
                 assert_read msg rd st2 = Done v (st2\<lparr>reader := advance n (reader st2)\<rparr>))"
  proof (intro exI [of _ n] conjI allI impI)
    show "st' = st\<lparr>reader := advance n (reader st)\<rparr>" using st' n(1) by simp
    show "cur (reader st) + n \<le> cap (reader st)" by (rule n(2))
  next
    fix st2 :: BinBinaryReader
    assume "cur (reader st2) = cur (reader st) \<and> cur (reader st2) + n \<le> cap (reader st2) \<and>
            peek n (reader st2) = peek n (reader st)"
    with n(3) have "rd (reader st2) = (True, v, advance n (reader st2))" by blast
    then show "assert_read msg rd st2 = Done v (st2\<lparr>reader := advance n (reader st2)\<rparr>)"
      by (rule assert_read_True)
  qed
qed

lemma reader_update_twice [simp]:
  "st\<lparr>reader := r\<rparr>\<lparr>reader := r'\<rparr> = st\<lparr>reader := r'\<rparr>"
  by simp

lemma frames_then_do:
  assumes p: "frames f p" and k: "\<And>v. frames f (k v)"
  shows "frames f (\<lambda>st. then_do (p st) k)"
proof (rule framesI)
  fix st :: BinBinaryReader
  assume le: "cur (reader st) \<le> cap (reader st)" and "then_do (p st) k = OutOfFuel"
  then consider "p st = OutOfFuel" | v st1 where "p st = Done v st1" "k v st1 = OutOfFuel"
    by (auto simp: then_do_OutOfFuel_iff)
  then show "f \<le> cap (reader st) - cur (reader st)"
  proof cases
    case 1
    with p le show ?thesis by (rule frames_OutOfFuelD)
  next
    case 2
    from frames_DoneD [OF p le 2(1)] obtain n where n: "st1 = st\<lparr>reader := advance n (reader st)\<rparr>"
      "cur (reader st) + n \<le> cap (reader st)" by blast
    then have le1: "cur (reader st1) \<le> cap (reader st1)" by simp
    from frames_OutOfFuelD [OF k le1 2(2)] n show ?thesis by simp
  qed
next
  fix st st' :: BinBinaryReader
  assume le: "cur (reader st) \<le> cap (reader st)" and "then_do (p st) k = Failed st'"
  then consider "p st = Failed st'" | v st1 where "p st = Done v st1" "k v st1 = Failed st'"
    by (auto simp: then_do_Failed_iff)
  then show "bin st' = bin st \<and> bytes (reader st') = bytes (reader st) \<and>
        cur (reader st) \<le> cur (reader st') \<and> cur (reader st') \<le> cap (reader st)"
  proof cases
    case 1
    with p le show ?thesis by (rule frames_FailedD)
  next
    case 2
    from frames_DoneD [OF p le 2(1)] obtain n where n: "st1 = st\<lparr>reader := advance n (reader st)\<rparr>"
      "cur (reader st) + n \<le> cap (reader st)" by blast
    then have le1: "cur (reader st1) \<le> cap (reader st1)" by simp
    from frames_FailedD [OF k le1 2(2)] n show ?thesis by simp
  qed
next
  fix st st' :: BinBinaryReader and w
  assume le: "cur (reader st) \<le> cap (reader st)" and "then_do (p st) k = Done w st'"
  then obtain v st1 where 1: "p st = Done v st1" and 2: "k v st1 = Done w st'"
    by (auto simp: then_do_Done_iff)
  from frames_DoneD [OF p le 1] obtain n where n: "st1 = st\<lparr>reader := advance n (reader st)\<rparr>"
    "cur (reader st) + n \<le> cap (reader st)"
    "\<forall>st2. cur (reader st2) = cur (reader st) \<and> cur (reader st2) + n \<le> cap (reader st2) \<and>
        peek n (reader st2) = peek n (reader st) \<longrightarrow>
        p st2 = Done v (st2\<lparr>reader := advance n (reader st2)\<rparr>)"
    by blast
  then have le1: "cur (reader st1) \<le> cap (reader st1)" by simp
  from frames_DoneD [OF k le1 2] obtain m where m: "st' = st1\<lparr>reader := advance m (reader st1)\<rparr>"
    "cur (reader st1) + m \<le> cap (reader st1)"
    "\<forall>st2. cur (reader st2) = cur (reader st1) \<and> cur (reader st2) + m \<le> cap (reader st2) \<and>
        peek m (reader st2) = peek m (reader st1) \<longrightarrow>
        k v st2 = Done w (st2\<lparr>reader := advance m (reader st2)\<rparr>)"
    by blast
  show "\<exists>n. st' = st\<lparr>reader := advance n (reader st)\<rparr> \<and>
          cur (reader st) + n \<le> cap (reader st) \<and>
          (\<forall>st2. cur (reader st2) = cur (reader st) \<and>
                 cur (reader st2) + n \<le> cap (reader st2) \<and>
                 peek n (reader st2) = peek n (reader st) \<longrightarrow>
                 then_do (p st2) k = Done w (st2\<lparr>reader := advance n (reader st2)\<rparr>))"
  proof (intro exI [of _ "n + m"] conjI allI impI)
    show "st' = st\<lparr>reader := advance (n + m) (reader st)\<rparr>"
      using m(1) n(1) by simp
    show "cur (reader st) + (n + m) \<le> cap (reader st)"
      using m(2) n(1) by simp
  next
    fix st2 :: BinBinaryReader
    assume a: "cur (reader st2) = cur (reader st) \<and> cur (reader st2) + (n + m) \<le> cap (reader st2) \<and>
            peek (n + m) (reader st2) = peek (n + m) (reader st)"
    then have "peek n (reader st2) = peek n (reader st)"
      by (auto intro: peek_take)
    with a n(3) have p2: "p st2 = Done v (st2\<lparr>reader := advance n (reader st2)\<rparr>)"
      by simp
    have "peek m (advance n (reader st2)) = peek m (advance n (reader st))"
      using a by (auto intro: peek_drop)
    with a n(1) m(3) have "k v (st2\<lparr>reader := advance n (reader st2)\<rparr>) =
        Done w (st2\<lparr>reader := advance n (reader st2)\<rparr>\<lparr>reader :=
          advance m (reader (st2\<lparr>reader := advance n (reader st2)\<rparr>))\<rparr>)"
      by (intro m(3) [rule_format]) (simp add: add.assoc)
    with p2 show "then_do (p st2) k = Done w (st2\<lparr>reader := advance (n + m) (reader st2)\<rparr>)"
      by simp
  qed
qed

lemma frames_step:
  assumes rd: "reads m rd" and m: "1 \<le> m" and k: "\<And>v. frames f (k v)"
  shows "frames (Suc f) (\<lambda>st. then_do (assert_read msg rd st) k)"
proof -
  have all: "frames f (\<lambda>st. then_do (assert_read msg rd st) k)"
    using frames_assert_read [OF rd] k by (rule frames_then_do)
  show ?thesis
  proof (rule framesI)
    fix st :: BinBinaryReader
    assume le: "cur (reader st) \<le> cap (reader st)"
      and "then_do (assert_read msg rd st) k = OutOfFuel"
    then obtain v st1 where 1: "assert_read msg rd st = Done v st1" and 2: "k v st1 = OutOfFuel"
      by (auto simp: then_do_OutOfFuel_iff)
    from 1 obtain r where r: "rd (reader st) = (True, v, r)" and st1: "st1 = st\<lparr>reader := r\<rparr>"
      by (auto simp: assert_read_Done_iff)
    from reads_TrueD [OF rd le r] obtain n where n: "m \<le> n" "r = advance n (reader st)"
      "cur (reader st) + n \<le> cap (reader st)"
      by blast
    with st1 have le1: "cur (reader st1) \<le> cap (reader st1)" by simp
    from frames_OutOfFuelD [OF k le1 2] n st1 m
    show "Suc f \<le> cap (reader st) - cur (reader st)" by simp
  next
    fix st st' :: BinBinaryReader
    assume "cur (reader st) \<le> cap (reader st)"
      and "then_do (assert_read msg rd st) k = Failed st'"
    with all show "bin st' = bin st \<and> bytes (reader st') = bytes (reader st) \<and>
        cur (reader st) \<le> cur (reader st') \<and> cur (reader st') \<le> cap (reader st)"
      by (rule frames_FailedD)
  next
    fix st st' :: BinBinaryReader and w
    assume "cur (reader st) \<le> cap (reader st)"
      and "then_do (assert_read msg rd st) k = Done w st'"
    with all show "\<exists>n. st' = st\<lparr>reader := advance n (reader st)\<rparr> \<and>
          cur (reader st) + n \<le> cap (reader st) \<and>
          (\<forall>st2. cur (reader st2) = cur (reader st) \<and>
                 cur (reader st2) + n \<le> cap (reader st2) \<and>
                 peek n (reader st2) = peek n (reader st) \<longrightarrow>
                 then_do (assert_read msg rd st2) k = Done w (st2\<lparr>reader := advance n (reader st2)\<rparr>))"
      by (rule frames_DoneD)
  qed
qed

lemma frames_cond:
  assumes C: "\<And>st st2. cur (reader st2) = cur (reader st) \<Longrightarrow> C st2 = C st"
    and k: "frames f (k ())"
  shows "frames f (\<lambda>st. then_do (assert_cond msg (C st) st) k)"
proof (rule framesI)
  fix st :: BinBinaryReader
  assume le: "cur (reader st) \<le> cap (reader st)"
    and "then_do (assert_cond msg (C st) st) k = OutOfFuel"
  then have "k () st = OutOfFuel"
    by (auto simp: then_do_OutOfFuel_iff assert_cond_Done_iff)
  with k le show "f \<le> cap (reader st) - cur (reader st)" by (rule frames_OutOfFuelD)
next
  fix st st' :: BinBinaryReader
  assume le: "cur (reader st) \<le> cap (reader st)"
    and "then_do (assert_cond msg (C st) st) k = Failed st'"
  then consider "st' = st\<lparr>error := error st @ [(msg, cur (reader st))]\<rparr>" | "k () st = Failed st'"
    by (auto simp: then_do_Failed_iff assert_cond_Done_iff assert_cond_Failed_iff)
  then show "bin st' = bin st \<and> bytes (reader st') = bytes (reader st) \<and>
        cur (reader st) \<le> cur (reader st') \<and> cur (reader st') \<le> cap (reader st)"
  proof cases
    case 1
    with le show ?thesis by simp
  next
    case 2
    with k le show ?thesis by (rule frames_FailedD)
  qed
next
  fix st st' :: BinBinaryReader and w
  assume le: "cur (reader st) \<le> cap (reader st)"
    and "then_do (assert_cond msg (C st) st) k = Done w st'"
  then have c: "C st" and 2: "k () st = Done w st'"
    by (auto simp: then_do_Done_iff assert_cond_Done_iff)
  from frames_DoneD [OF k le 2] obtain n where n: "st' = st\<lparr>reader := advance n (reader st)\<rparr>"
    "cur (reader st) + n \<le> cap (reader st)"
    "\<forall>st2. cur (reader st2) = cur (reader st) \<and> cur (reader st2) + n \<le> cap (reader st2) \<and>
        peek n (reader st2) = peek n (reader st) \<longrightarrow>
        k () st2 = Done w (st2\<lparr>reader := advance n (reader st2)\<rparr>)"
    by blast
  show "\<exists>n. st' = st\<lparr>reader := advance n (reader st)\<rparr> \<and>
          cur (reader st) + n \<le> cap (reader st) \<and>
          (\<forall>st2. cur (reader st2) = cur (reader st) \<and>
                 cur (reader st2) + n \<le> cap (reader st2) \<and>
                 peek n (reader st2) = peek n (reader st) \<longrightarrow>
                 then_do (assert_cond msg (C st2) st2) k =
                   Done w (st2\<lparr>reader := advance n (reader st2)\<rparr>))"
  proof (intro exI [of _ n] conjI allI impI)
    fix st2 :: BinBinaryReader
    assume a: "cur (reader st2) = cur (reader st) \<and> cur (reader st2) + n \<le> cap (reader st2) \<and>
            peek n (reader st2) = peek n (reader st)"
    then have "C st2" using C [of st2 st] c by simp
    moreover from a n(3) have "k () st2 = Done w (st2\<lparr>reader := advance n (reader st2)\<rparr>)"
      by blast
    ultimately show "then_do (assert_cond msg (C st2) st2) k =
        Done w (st2\<lparr>reader := advance n (reader st2)\<rparr>)"
      by (simp add: assert_cond_def)
  qed (use n in simp_all)
qed

lemma frames_at_cur:
  assumes G: "\<And>c. frames f (G c)"
  shows "frames f (\<lambda>st. G (cur (reader st)) st)"
proof (rule framesI)
  fix st :: BinBinaryReader
  assume "cur (reader st) \<le> cap (reader st)" "G (cur (reader st)) st = OutOfFuel"
  with G show "f \<le> cap (reader st) - cur (reader st)" by (rule frames_OutOfFuelD)
next
  fix st st' :: BinBinaryReader
  assume "cur (reader st) \<le> cap (reader st)" "G (cur (reader st)) st = Failed st'"
  with G show "bin st' = bin st \<and> bytes (reader st') = bytes (reader st) \<and>
        cur (reader st) \<le> cur (reader st') \<and> cur (reader st') \<le> cap (reader st)"
    by (rule frames_FailedD)
next
  fix st st' :: BinBinaryReader and w
  assume "cur (reader st) \<le> cap (reader st)" "G (cur (reader st)) st = Done w st'"
  with G have "\<exists>n. st' = st\<lparr>reader := advance n (reader st)\<rparr> \<and>
          cur (reader st) + n \<le> cap (reader st) \<and>
          (\<forall>st2. cur (reader st2) = cur (reader st) \<and>
                 cur (reader st2) + n \<le> cap (reader st2) \<and>
                 peek n (reader st2) = peek n (reader st) \<longrightarrow>
                 G (cur (reader st)) st2 = Done w (st2\<lparr>reader := advance n (reader st2)\<rparr>))"
    by (rule frames_DoneD)
  then show "\<exists>n. st' = st\<lparr>reader := advance n (reader st)\<rparr> \<and>
          cur (reader st) + n \<le> cap (reader st) \<and>
          (\<forall>st2. cur (reader st2) = cur (reader st) \<and>
                 cur (reader st2) + n \<le> cap (reader st2) \<and>
                 peek n (reader st2) = peek n (reader st) \<longrightarrow>
                 G (cur (reader st2)) st2 = Done w (st2\<lparr>reader := advance n (reader st2)\<rparr>))"
    by auto
qed

lemma frames_if:
  "frames f p \<Longrightarrow> frames f q \<Longrightarrow> frames f (\<lambda>st. if b then p st else q st)"
  by (cases b) (simp_all add: frames_def)

lemma frames_assert_call:
  assumes p: "frames f p"
  shows "frames f (assert_call msg p)"
proof (rule framesI)
  fix st :: BinBinaryReader
  assume "cur (reader st) \<le> cap (reader st)" "assert_call msg p st = OutOfFuel"
  with p show "f \<le> cap (reader st) - cur (reader st)"
    by (auto simp: assert_call_OutOfFuel_iff dest: frames_OutOfFuelD)
next
  fix st st' :: BinBinaryReader
  assume le: "cur (reader st) \<le> cap (reader st)" and "assert_call msg p st = Failed st'"
  then obtain st1 where 1: "p st = Failed st1"
    and st': "st' = st1\<lparr>error := error st1 @ [(msg, cur (reader st))]\<rparr>"
    by (auto simp: assert_call_Failed_iff)
  from frames_FailedD [OF p le 1] st'
  show "bin st' = bin st \<and> bytes (reader st') = bytes (reader st) \<and>
        cur (reader st) \<le> cur (reader st') \<and> cur (reader st') \<le> cap (reader st)"
    by simp
next
  fix st st' :: BinBinaryReader and w
  assume le: "cur (reader st) \<le> cap (reader st)" and "assert_call msg p st = Done w st'"
  then have "p st = Done w st'" by (simp add: assert_call_Done_iff)
  from frames_DoneD [OF p le this]
  show "\<exists>n. st' = st\<lparr>reader := advance n (reader st)\<rparr> \<and>
          cur (reader st) + n \<le> cap (reader st) \<and>
          (\<forall>st2. cur (reader st2) = cur (reader st) \<and>
                 cur (reader st2) + n \<le> cap (reader st2) \<and>
                 peek n (reader st2) = peek n (reader st) \<longrightarrow>
                 assert_call msg p st2 = Done w (st2\<lparr>reader := advance n (reader st2)\<rparr>))"
    by (simp add: assert_call_Done_iff)
qed

lemma reads_read_string: "reads 2 (read_string s)"
  unfolding reads_def
proof (intro allI impI)
  fix r :: BinaryReader and ok v r'
  assume le: "cur r \<le> cap r" and rd: "read_string s r = (ok, v, r')"
  let ?n = "unat (le_word (peek 2 r) :: 16 word)"
  show "bytes r' = bytes r \<and> cur r \<le> cur r' \<and> cur r' \<le> cap r \<and>
        (ok \<longrightarrow>
           (\<exists>n\<ge>2. r' = advance n r \<and>
              (\<forall>r2. cur r2 = cur r \<and> cur r2 + n \<le> cap r2 \<and> peek n r2 = peek n r \<longrightarrow>
                 read_string s r2 = (True, v, advance n r2))))"
  proof (cases ok)
    case False
    with rd le show ?thesis
      by (auto simp: read_string_def read_def sizeof_def split: if_splits prod.splits bool.splits)
  next
    case True
    with rd have 1: "cur r + 2 + ?n \<le> cap r" and v: "v = peek ?n (advance 2 r)"
      and r': "r' = advance (2 + ?n) r"
      by (auto simp: read_string_def read_def sizeof_def split: if_splits prod.splits bool.splits)
    have "read_string s r2 = (True, v, advance (2 + ?n) r2)"
      if a: "cur r2 = cur r \<and> cur r2 + (2 + ?n) \<le> cap r2 \<and> peek (2 + ?n) r2 = peek (2 + ?n) r"
      for r2
    proof -
      from a have p2: "peek 2 r2 = peek 2 r" by (auto intro: peek_take)
      from a have pn: "peek ?n (advance 2 r2) = peek ?n (advance 2 r)" by (auto intro: peek_drop)
      from a p2 pn v show ?thesis
        by (simp add: read_string_def read_def sizeof_def)
    qed
    with 1 r' True show ?thesis by (auto intro!: exI [of _ "2 + ?n"])
  qed
qed

named_theorems frames_intros

lemmas [frames_intros] = frames_Done frames_assert_call frames_if
  frames_assert_read [OF reads_read] frames_assert_read [OF reads_read_array]
  frames_assert_read [OF reads_read_vector] frames_assert_read [OF reads_read_string]
  frames_assert_read [OF reads_read_FNV1a] frames_assert_read [OF reads_read_XXH64]
  frames_assert_read [OF reads_read_Type]

lemma frames_let_position:
  assumes "\<And>pos. frames f (G pos)"
  shows "frames f (\<lambda>st. let pos = position (reader st) in G pos st)"
  unfolding Let_def position_def using assms by (rule frames_at_cur)

lemma then_do_Done [simp]: "then_do m Done = m"
  by (cases m) simp_all

lemma frames_position_check:
  "frames f (\<lambda>st. assert_cond msg (position (reader st) = pos + n) st)"
  using frames_cond [where k = Done and C = "\<lambda>st. position (reader st) = pos + n" and f = f and msg = msg]
  by (simp add: position_def frames_Done)

lemma frames_check: "frames f (assert_cond msg c)"
  using frames_cond [where k = Done and C = "\<lambda>st. c" and f = f and msg = msg]
  by (simp add: frames_Done)

lemma frames_read_fields:
  assumes rv: "\<And>t. frames f (rv t)"
  shows "frames f (read_fields rv tbl n items)"
proof (induction n arbitrary: items)
  case 0
  have "read_fields rv tbl 0 items = Done items" by (rule ext) simp
  then show ?case by (simp add: frames_Done)
next
  case (Suc n)
  have "read_fields rv tbl (Suc n) items = (\<lambda>st.
     then_do (assert_read ''reader.read(name)'' (read_FNV1a 0) st) (\<lambda>name st.
     then_do (assert_read ''reader.read(type)'' (read_Type tbl 0) st) (\<lambda>type st.
     then_do (assert_call ''read_value_of(item, type)'' (rv type) st) (\<lambda>item st.
     read_fields rv tbl n (items @ [(name, item)]) st))))"
    by (rule ext) simp
  then show ?case
    using rv Suc.IH by (simp only:) (intro frames_then_do frames_intros)
qed

lemma frames_read_items:
  assumes rv: "\<And>t. frames f (rv t)"
  shows "frames f (read_items rv valueType n items)"
proof (induction n arbitrary: items)
  case 0
  have "read_items rv valueType 0 items = Done items" by (rule ext) simp
  then show ?case by (simp add: frames_Done)
next
  case (Suc n)
  have "read_items rv valueType (Suc n) items = (\<lambda>st.
     then_do (assert_call ''read_value_of(item, value.valueType)'' (rv valueType) st) (\<lambda>item st.
     read_items rv valueType n (items @ [item]) st))"
    by (rule ext) simp
  then show ?case
    using rv Suc.IH by (simp only:) (intro frames_then_do frames_intros)
qed

lemma frames_read_pairs:
  assumes rv: "\<And>t. frames f (rv t)"
  shows "frames f (read_pairs rv keyType valueType n items)"
proof (induction n arbitrary: items)
  case 0
  have "read_pairs rv keyType valueType 0 items = Done items" by (rule ext) simp
  then show ?case by (simp add: frames_Done)
next
  case (Suc n)
  have "read_pairs rv keyType valueType (Suc n) items = (\<lambda>st.
     then_do (assert_call ''read_value_of(key, value.keyType)'' (rv keyType) st) (\<lambda>key st.
     then_do (assert_call ''read_value_of(item, value.valueType)'' (rv valueType) st) (\<lambda>item st.
     read_pairs rv keyType valueType n (items @ [(key, item)]) st)))"
    by (rule ext) simp
  then show ?case
    using rv Suc.IH by (simp only:) (intro frames_then_do frames_intros)
qed

lemmas frames_loops = frames_read_fields frames_read_items frames_read_pairs

lemma frames_None: "frames f read_value_visit_None"
  unfolding read_value_visit_None_def [abs_def]
  by (intro frames_then_do frames_check frames_intros)

lemma frames_T:
  assumes "reads m rd"
  shows "frames f (read_value_visit_T C rd)"
  unfolding read_value_visit_T_def [abs_def]
  by (intro frames_then_do frames_assert_read [OF assms] frames_intros)

lemma frames_Embed:
  assumes rv: "\<And>t. frames f (rv t)"
  shows "frames (Suc f) (read_value_visit_Embed tbl rv name items)"
  unfolding read_value_visit_Embed_def [abs_def]
  apply (rule frames_step [OF reads_read_FNV1a], simp)
  apply (intro frames_then_do frames_let_position frames_position_check frames_intros
      frames_loops rv)
  done

lemma frames_Pointer:
  assumes rv: "\<And>t. frames f (rv t)"
  shows "frames (Suc f) (read_value_visit_Pointer tbl rv name items)"
  unfolding read_value_visit_Pointer_def [abs_def]
  apply (rule frames_step [OF reads_read_FNV1a], simp)
  apply (intro frames_then_do frames_let_position frames_position_check frames_intros
      frames_loops rv)
  done

lemma frames_Option:
  assumes rv: "\<And>t. frames f (rv t)"
  shows "frames (Suc f) (read_value_visit_Option tbl rv valueType items)"
  unfolding read_value_visit_Option_def [abs_def]
  apply (rule frames_step [OF reads_read_Type], simp)
  apply (intro frames_then_do frames_check frames_intros rv)
  done

lemma frames_List:
  assumes rv: "\<And>t. frames f (rv t)"
  shows "frames (Suc f) (read_value_visit_List tbl rv valueType items)"
  unfolding read_value_visit_List_def [abs_def]
  apply (rule frames_step [OF reads_read_Type], simp)
  apply (intro frames_then_do frames_let_position frames_position_check frames_check
      frames_intros frames_loops rv)
  done

lemma frames_List2:
  assumes rv: "\<And>t. frames f (rv t)"
  shows "frames (Suc f) (read_value_visit_List2 tbl rv valueType items)"
  unfolding read_value_visit_List2_def [abs_def]
  apply (rule frames_step [OF reads_read_Type], simp)
  apply (intro frames_then_do frames_let_position frames_position_check frames_check
      frames_intros frames_loops rv)
  done

lemma frames_Map:
  assumes rv: "\<And>t. frames f (rv t)"
  shows "frames (Suc f) (read_value_visit_Map tbl rv keyType valueType items)"
  unfolding read_value_visit_Map_def [abs_def]
  apply (rule frames_step [OF reads_read_Type], simp)
  apply (intro frames_then_do frames_let_position frames_position_check frames_check
      frames_intros frames_loops rv)
  done

lemma frames_read_value_visit:
  assumes rv: "\<And>t. frames f (rv t)"
  shows "frames (Suc f) (read_value_visit tbl rv value)"
  unfolding read_value_visit_def [abs_def]
  by (cases "value")
    (simp_all add: frames_None frames_Embed frames_Pointer frames_Option frames_List frames_List2
      frames_Map rv frames_T [OF reads_read] frames_T [OF reads_read_array]
      frames_T [OF reads_read_string] frames_T [OF reads_read_FNV1a] frames_T [OF reads_read_XXH64])

lemma frames_read_value_of: "frames fuel (read_value_of tbl fuel type)"
proof (induction fuel arbitrary: type)
  case 0
  have "read_value_of tbl 0 type = (\<lambda>st. OutOfFuel)" by (rule ext) simp
  then show ?case by (simp add: frames_def)
next
  case (Suc fuel)
  have "read_value_of tbl (Suc fuel) type =
      read_value_visit tbl (read_value_of tbl fuel) (from_type tbl type)"
    by (rule ext) simp
  then show ?case using Suc.IH by (simp add: frames_read_value_visit)
qed

subsection \<open>The values that a decode produces\<close>

lemma value_initialised_spec_table: "value_initialised spec_table"
  unfolding value_initialised_def spec_table_def by (simp add: tags_def)

lemma read_fields_yields:
  assumes rv: "\<forall>t st v st'. rv t st = Done v st' \<longrightarrow> Q v"
  shows "read_fields rv tbl n items st = Done items' st' \<Longrightarrow> \<forall>f\<in>set items. Q (snd f) \<Longrightarrow>
         \<forall>f\<in>set items'. Q (snd f)"
proof (induction n arbitrary: items st)
  case 0
  then show ?case by simp
next
  case (Suc n)
  from Suc.prems(1) obtain name type item st1 st2 where
    item: "rv type st1 = Done item st2" and
    rest: "read_fields rv tbl n (items @ [(name, item)]) st2 = Done items' st'"
    by (auto simp: Done_iffs)
  from rv item Suc.prems(2) have "\<forall>f\<in>set (items @ [(name, item)]). Q (snd f)"
    by auto
  with rest show ?case by (rule Suc.IH)
qed

lemma read_items_yields:
  assumes rv: "\<forall>t st v st'. rv t st = Done v st' \<longrightarrow> Q v"
  shows "read_items rv valueType n items st = Done items' st' \<Longrightarrow> \<forall>v\<in>set items. Q v \<Longrightarrow>
         \<forall>v\<in>set items'. Q v"
proof (induction n arbitrary: items st)
  case 0
  then show ?case by simp
next
  case (Suc n)
  from Suc.prems(1) obtain item st2 where
    item: "rv valueType st = Done item st2" and
    rest: "read_items rv valueType n (items @ [item]) st2 = Done items' st'"
    by (auto simp: Done_iffs)
  from rv item Suc.prems(2) have "\<forall>v\<in>set (items @ [item]). Q v"
    by auto
  with rest show ?case by (rule Suc.IH)
qed

lemma read_pairs_yields:
  assumes rv: "\<forall>t st v st'. rv t st = Done v st' \<longrightarrow> Q v"
  shows "read_pairs rv keyType valueType n items st = Done items' st' \<Longrightarrow>
         \<forall>kv\<in>set items. Q (fst kv) \<and> Q (snd kv) \<Longrightarrow>
         \<forall>kv\<in>set items'. Q (fst kv) \<and> Q (snd kv)"
proof (induction n arbitrary: items st)
  case 0
  then show ?case by simp
next
  case (Suc n)
  from Suc.prems(1) obtain key item st1 st2 where
    key: "rv keyType st = Done key st1" and
    item: "rv valueType st1 = Done item st2" and
    rest: "read_pairs rv keyType valueType n (items @ [(key, item)]) st2 = Done items' st'"
    by (auto simp: Done_iffs)
  from rv key item Suc.prems(2)
  have "\<forall>kv\<in>set (items @ [(key, item)]). Q (fst kv) \<and> Q (snd kv)"
    by auto
  with rest show ?case by (rule Suc.IH)
qed

lemma good_simps [simp]:
  "\<not> good tbl None_v"
  "good tbl (List valueType items) \<longleftrightarrow> \<not> is_container tbl valueType \<and> (\<forall>v\<in>set items. good tbl v)"
  "good tbl (List2 valueType items) \<longleftrightarrow> \<not> is_container tbl valueType \<and> (\<forall>v\<in>set items. good tbl v)"
  "good tbl (Option_v valueType items) \<longleftrightarrow>
     \<not> is_container tbl valueType \<and> (\<forall>v\<in>set items. good tbl v)"
  "good tbl (Map_v keyType valueType options) \<longleftrightarrow>
     is_primitive tbl keyType \<and> \<not> is_container tbl valueType \<and>
     (\<forall>kv\<in>set options. good tbl (fst kv) \<and> good tbl (snd kv))"
  "good tbl (Embed name flds) \<longleftrightarrow> (\<forall>f\<in>set flds. good tbl (snd f))"
  "good tbl (Pointer name flds) \<longleftrightarrow> (\<forall>f\<in>set flds. good tbl (snd f))"
  by (auto simp: good_def)

lemma Embed_good:
  assumes rv: "\<forall>t st v st'. rv t st = Done v st' \<longrightarrow> good tbl v"
    and res: "read_value_visit_Embed tbl rv name [] st = Done v st'"
  shows "good tbl v"
  using res read_fields_yields [where Q = "good tbl" and rv = rv and items = "[]", OF rv]
  unfolding read_value_visit_Embed_def
  by (auto simp: Done_iffs Let_def)

lemma Pointer_good:
  assumes rv: "\<forall>t st v st'. rv t st = Done v st' \<longrightarrow> good tbl v"
    and res: "read_value_visit_Pointer tbl rv name [] st = Done v st'"
  shows "good tbl v"
proof -
  from res obtain h st1 where
    rest: "(if h = 0 then Done (Pointer h []) st1
      else
      then_do (assert_read ''reader.read(size)'' (read (0::32 word)) st1) (\<lambda>size_n st.
      let pos = position (reader st) in
      then_do (assert_read ''reader.read(count)'' (read (0::16 word)) st) (\<lambda>count st.
      then_do (read_fields rv tbl (unat count) [] st) (\<lambda>items st.
      then_do (assert_cond ''reader.position() == position + size''
                 (position (reader st) = pos + unat size_n) st) (\<lambda>_ st.
      Done (Pointer h items) st))))) = Done v st'"
    unfolding read_value_visit_Pointer_def by (subst (asm) then_do_Done_iff) blast
  show ?thesis
  proof (cases "h = 0")
    case True
    with rest show ?thesis by auto
  next
    case False
    with rest read_fields_yields [where Q = "good tbl" and rv = rv and items = "[]", OF rv]
    show ?thesis
      by (auto simp: Done_iffs Let_def)
  qed
qed

lemma Option_good:
  assumes rv: "\<forall>t st v st'. rv t st = Done v st' \<longrightarrow> good tbl v"
    and res: "read_value_visit_Option tbl rv valueType [] st = Done v st'"
  shows "good tbl v"
proof -
  from res obtain t c st1 where t: "\<not> is_container tbl t"
    and rest: "(if c \<noteq> (0::8 word) then
       then_do (assert_call ''read_value_of(item, value.valueType)'' (rv t) st1) (\<lambda>item st.
       Done (Option_v t ([] @ [item])) st)
     else Done (Option_v t []) st1) = Done v st'"
    unfolding read_value_visit_Option_def
    by (auto simp: Done_iffs)
  show ?thesis
  proof (cases "c = 0")
    case True
    with rest t show ?thesis by auto
  next
    case False
    with rest obtain item st2 where "rv t st1 = Done item st2" "v = Option_v t [item]"
      by (auto simp: Done_iffs)
    with rv t show ?thesis by auto
  qed
qed

lemma List_good:
  assumes rv: "\<forall>t st v st'. rv t st = Done v st' \<longrightarrow> good tbl v"
    and res: "read_value_visit_List tbl rv valueType [] st = Done v st'"
  shows "good tbl v"
  using res read_items_yields [where Q = "good tbl" and rv = rv and items = "[]", OF rv]
  unfolding read_value_visit_List_def
  by (auto simp: Done_iffs Let_def)

lemma List2_good:
  assumes rv: "\<forall>t st v st'. rv t st = Done v st' \<longrightarrow> good tbl v"
    and res: "read_value_visit_List2 tbl rv valueType [] st = Done v st'"
  shows "good tbl v"
  using res read_items_yields [where Q = "good tbl" and rv = rv and items = "[]", OF rv]
  unfolding read_value_visit_List2_def
  by (auto simp: Done_iffs Let_def)

lemma Map_good:
  assumes rv: "\<forall>t st v st'. rv t st = Done v st' \<longrightarrow> good tbl v"
    and res: "read_value_visit_Map tbl rv keyType valueType [] st = Done v st'"
  shows "good tbl v"
  using res read_pairs_yields [where Q = "good tbl" and rv = rv and items = "[]", OF rv]
  unfolding read_value_visit_Map_def
  by (auto simp: Done_iffs Let_def)

lemma read_value_visit_good:
  assumes rv: "\<forall>t st v st'. rv t st = Done v st' \<longrightarrow> good tbl v"
    and init: "no_items value"
    and res: "read_value_visit tbl rv value st = Done v st'"
  shows "good tbl v"
  using res init
  by (cases "value")
    (auto simp: read_value_visit_def read_value_visit_None_def read_value_visit_T_def Done_iffs
      good_def
      dest: Embed_good [OF rv] Pointer_good [OF rv] Option_good [OF rv] List_good [OF rv]
        List2_good [OF rv] Map_good [OF rv])

lemma read_value_of_good:
  assumes "value_initialised tbl"
  shows "read_value_of tbl fuel type st = Done v st' \<Longrightarrow> good tbl v"
proof (induction fuel arbitrary: type st v st')
  case 0
  then show ?case by simp
next
  case (Suc fuel)
  from Suc.IH
  have "\<forall>t st v st'. read_value_of tbl fuel t st = Done v st' \<longrightarrow> good tbl v"
    by blast
  moreover from assms have "no_items (from_type tbl type)"
    by (simp add: value_initialised_def)
  moreover from Suc.prems
  have "read_value_visit tbl (read_value_of tbl fuel) (from_type tbl type) st = Done v st'"
    by simp
  ultimately show ?case
    by (rule read_value_visit_good)
qed

subsection \<open>The document level\<close>

lemma frames_read_linked_loop: "frames f (read_linked_loop n items)"
proof (induction n arbitrary: items)
  case 0
  have "read_linked_loop 0 items = Done items" by (rule ext) simp
  then show ?case by (simp add: frames_Done)
next
  case (Suc n)
  have "read_linked_loop (Suc n) items = (\<lambda>st.
     then_do (assert_read ''reader.read(linked.value)'' (read_string []) st) (\<lambda>linked st.
     read_linked_loop n (items @ [String linked]) st))"
    by (rule ext) simp
  then show ?case
    using Suc.IH by (simp only:) (intro frames_then_do frames_intros)
qed

lemma frames_read_entry: "frames fuel (read_entry tbl fuel items)"
  unfolding read_entry_def [abs_def]
  by (intro frames_then_do frames_let_position frames_position_check frames_intros
      frames_loops frames_read_value_of)

lemma frames_read_entries_loop: "frames fuel (read_entries_loop tbl fuel hashes items)"
proof (induction hashes arbitrary: items)
  case Nil
  have "read_entries_loop tbl fuel [] items = Done items" by (rule ext) simp
  then show ?case by (simp add: frames_Done)
next
  case (Cons entryNameHash rest)
  have "read_entries_loop tbl fuel (entryNameHash # rest) items = (\<lambda>st.
     then_do (assert_call ''read_entry(entryKeyHash, entry)'' (read_entry tbl fuel []) st)
       (\<lambda>e st.
     read_entries_loop tbl fuel rest
       (items @ [(Hash (fst e), Embed entryNameHash (snd e))]) st))"
    by (rule ext) (simp add: case_prod_unfold)
  then show ?case
    using Cons.IH by (simp only:) (intro frames_then_do frames_intros frames_read_entry)
qed

lemma read_linked_loop_yields:
  "read_linked_loop n items st = Done items' st' \<Longrightarrow> \<forall>v\<in>set items. \<exists>s. v = String s \<Longrightarrow>
   \<forall>v\<in>set items'. \<exists>s. v = String s"
proof (induction n arbitrary: items st)
  case 0
  then show ?case by simp
next
  case (Suc n)
  from Suc.prems(1) obtain linked st1 where
    rest: "read_linked_loop n (items @ [String linked]) st1 = Done items' st'"
    by (auto simp: Done_iffs)
  from Suc.prems(2) have "\<forall>v\<in>set (items @ [String linked]). \<exists>s. v = String s"
    by auto
  with rest show ?case by (rule Suc.IH)
qed

lemma read_entry_yields:
  assumes "value_initialised tbl" "read_entry tbl fuel [] st = Done e st'"
  shows "\<forall>f\<in>set (snd e). good tbl (snd f)"
proof -
  have rv: "\<forall>t st v st'. read_value_of tbl fuel t st = Done v st' \<longrightarrow> good tbl v"
    using assms(1) by (blast intro: read_value_of_good)
  from assms(2) obtain n st1 st2 where
    "read_fields (read_value_of tbl fuel) tbl n [] st1 = Done (snd e) st2"
    unfolding read_entry_def by (auto simp: Done_iffs Let_def)
  from read_fields_yields [OF rv this] show ?thesis by simp
qed

text \<open>The pairs of the \<open>entries\<close> map.\<close>

lemma read_entries_loop_yields:
  assumes "read_entries_loop tbl fuel hashes items st = Done items' st'"
    and "\<forall>kv\<in>set items. \<exists>h n fs. kv = (Hash h, Embed n fs) \<and>
           (value_initialised tbl \<longrightarrow> (\<forall>f\<in>set fs. good tbl (snd f)))"
  shows "\<forall>kv\<in>set items'. \<exists>h n fs. kv = (Hash h, Embed n fs) \<and>
           (value_initialised tbl \<longrightarrow> (\<forall>f\<in>set fs. good tbl (snd f)))"
  using assms
proof (induction hashes arbitrary: items st)
  case Nil
  then show ?case by simp
next
  case (Cons entryNameHash rest)
  from Cons.prems(1) obtain e st1 st2 where
    e: "read_entry tbl fuel [] st1 = Done e st2" and
    rest: "read_entries_loop tbl fuel rest
       (items @ [(Hash (fst e), Embed entryNameHash (snd e))]) st2 = Done items' st'"
    by (auto simp: Done_iffs case_prod_unfold)
  from e have "value_initialised tbl \<longrightarrow> (\<forall>f\<in>set (snd e). good tbl (snd f))"
    by (auto dest: read_entry_yields)
  with Cons.prems(2)
  have "\<forall>kv\<in>set (items @ [(Hash (fst e), Embed entryNameHash (snd e))]).
          \<exists>h n fs. kv = (Hash h, Embed n fs) \<and>
           (value_initialised tbl \<longrightarrow> (\<forall>f\<in>set fs. good tbl (snd f)))"
    by auto
  with rest show ?case by (rule Cons.IH)
qed

lemma bin_emplace:
  "bin (emplace k v st) =
     (if k \<in> dom (sections (bin st)) then bin st
      else (bin st)\<lparr>sections := (sections (bin st))(k \<mapsto> v)\<rparr>)"
  by (simp add: emplace_def)

lemma reader_emplace [simp]: "reader (emplace k v st) = reader st"
  by (simp add: emplace_def)

lemma error_emplace [simp]: "error (emplace k v st) = error st"
  by (simp add: emplace_def)

lemma sections_emplace:
  "sections (bin (emplace k v st)) =
     (if k \<in> dom (sections (bin st)) then sections (bin st) else (sections (bin st))(k \<mapsto> v))"
  by (simp add: emplace_def)

lemma read_linked_Done:
  assumes le: "cur (reader st) \<le> cap (reader st)"
    and res: "read_linked tbl hasLinks st = Done u st'"
  shows "\<exists>n items. st' = emplace ''linked'' (List (STRING tbl) items)
                             (st\<lparr>reader := advance n (reader st)\<rparr>) \<and>
           cur (reader st) + n \<le> cap (reader st) \<and>
           (\<forall>v\<in>set items. \<exists>s. v = String s) \<and> (\<not> hasLinks \<longrightarrow> items = [])"
proof (cases hasLinks)
  case False
  with res le show ?thesis
    by (auto simp: read_linked_def intro!: exI [of _ 0])
next
  case True
  with res obtain c st1 items st2 where
    c: "assert_read ''reader.read(linkedFilesCount)'' (read (0::32 word)) st = Done c st1"
    and loop: "read_linked_loop (unat c) [] st1 = Done items st2"
    and st': "st' = emplace ''linked'' (List (STRING tbl) items) st2"
    by (auto simp: read_linked_def then_do_Done_iff)
  from frames_DoneD [OF frames_assert_read [OF reads_read] le c]
  obtain n where n: "st1 = st\<lparr>reader := advance n (reader st)\<rparr>"
    "cur (reader st) + n \<le> cap (reader st)" by blast
  then have le1: "cur (reader st1) \<le> cap (reader st1)" by simp
  from frames_DoneD [OF frames_read_linked_loop le1 loop]
  obtain m where m: "st2 = st1\<lparr>reader := advance m (reader st1)\<rparr>"
    "cur (reader st1) + m \<le> cap (reader st1)" by blast
  from read_linked_loop_yields [OF loop] have "\<forall>v\<in>set items. \<exists>s. v = String s" by simp
  with st' n m True show ?thesis
    by (auto intro!: exI [of _ "n + m"] exI [of _ items])
qed

lemma read_entries_Done:
  assumes le: "cur (reader st) \<le> cap (reader st)"
    and res: "read_entries tbl fuel st = Done u st'"
  shows "\<exists>n items. st' = emplace ''entries'' (Map_v (HASH tbl) (EMBED tbl) items)
                             (st\<lparr>reader := advance n (reader st)\<rparr>) \<and>
           cur (reader st) + n \<le> cap (reader st) \<and>
           (\<forall>kv\<in>set items. \<exists>h n fs. kv = (Hash h, Embed n fs) \<and>
              (value_initialised tbl \<longrightarrow> (\<forall>f\<in>set fs. good tbl (snd f))))"
proof -
  from res obtain c st1 hashes st2 items st3 where
    c: "assert_read ''reader.read(entryCount)'' (read (0::32 word)) st = Done c st1"
    and h: "assert_read ''reader.read(entryNameHashes, entryCount)''
                (read_vector ([]::32 word list) (unat c)) st1 = Done hashes st2"
    and loop: "read_entries_loop tbl fuel hashes [] st2 = Done items st3"
    and st': "st' = emplace ''entries'' (Map_v (HASH tbl) (EMBED tbl) items) st3"
    by (auto simp: read_entries_def then_do_Done_iff)
  from frames_DoneD [OF frames_assert_read [OF reads_read] le c]
  obtain n where n: "st1 = st\<lparr>reader := advance n (reader st)\<rparr>"
    "cur (reader st) + n \<le> cap (reader st)" by blast
  then have le1: "cur (reader st1) \<le> cap (reader st1)" by simp
  from frames_DoneD [OF frames_assert_read [OF reads_read_vector] le1 h]
  obtain m where m: "st2 = st1\<lparr>reader := advance m (reader st1)\<rparr>"
    "cur (reader st1) + m \<le> cap (reader st1)" by blast
  then have le2: "cur (reader st2) \<le> cap (reader st2)" by simp
  from frames_DoneD [OF frames_read_entries_loop le2 loop]
  obtain k where k: "st3 = st2\<lparr>reader := advance k (reader st2)\<rparr>"
    "cur (reader st2) + k \<le> cap (reader st2)" by blast
  from read_entries_loop_yields [OF loop]
  have "\<forall>kv\<in>set items. \<exists>h n fs. kv = (Hash h, Embed n fs) \<and>
              (value_initialised tbl \<longrightarrow> (\<forall>f\<in>set fs. good tbl (snd f)))" by simp
  with st' n m k show ?thesis
    by (auto simp: add.assoc intro!: exI [of _ "n + m + k"] exI [of _ items])
qed

lemma read_linked_entries_Done:
  assumes linked: "read_linked tbl hasLinks st = Done () st1"
    and entries: "read_entries tbl fuel st1 = Done () st'"
    and le: "cur (reader st) \<le> cap (reader st)"
    and dom: "dom (sections (bin st)) = {''type'', ''version''}"
  shows "\<exists>linked entries.
      sections (bin st') =
        (sections (bin st))
          (''linked'' \<mapsto> List (STRING tbl) linked,
           ''entries'' \<mapsto> Map_v (HASH tbl) (EMBED tbl) entries) \<and>
      (\<forall>v\<in>set linked. \<exists>s. v = String s) \<and> (\<not> hasLinks \<longrightarrow> linked = []) \<and>
      (\<forall>kv\<in>set entries. \<exists>h n fs. kv = (Hash h, Embed n fs) \<and>
              (value_initialised tbl \<longrightarrow> (\<forall>f\<in>set fs. good tbl (snd f)))) \<and>
      bytes (reader st') = bytes (reader st)"
proof -
  from read_linked_Done [OF le linked] obtain n linked where
    st1: "st1 = emplace ''linked'' (List (STRING tbl) linked) (st\<lparr>reader := advance n (reader st)\<rparr>)"
    and n: "cur (reader st) + n \<le> cap (reader st)"
    and l: "\<forall>v\<in>set linked. \<exists>s. v = String s" "\<not> hasLinks \<longrightarrow> linked = []"
    by blast
  from st1 n have le1: "cur (reader st1) \<le> cap (reader st1)" by simp
  from read_entries_Done [OF le1 entries] obtain m entries where
    st': "st' = emplace ''entries'' (Map_v (HASH tbl) (EMBED tbl) entries)
                  (st1\<lparr>reader := advance m (reader st1)\<rparr>)"
    and e: "\<forall>kv\<in>set entries. \<exists>h n fs. kv = (Hash h, Embed n fs) \<and>
              (value_initialised tbl \<longrightarrow> (\<forall>f\<in>set fs. good tbl (snd f)))"
    by blast
  have s1: "sections (bin st1) = (sections (bin st))(''linked'' \<mapsto> List (STRING tbl) linked)"
    using st1 dom by (simp add: sections_emplace)
  have "sections (bin st') =
      (sections (bin st1))(''entries'' \<mapsto> Map_v (HASH tbl) (EMBED tbl) entries)"
    using st' s1 dom by (simp add: sections_emplace)
  with s1 have "sections (bin st') =
        (sections (bin st))
          (''linked'' \<mapsto> List (STRING tbl) linked,
           ''entries'' \<mapsto> Map_v (HASH tbl) (EMBED tbl) entries)"
    by simp
  moreover have "bytes (reader st') = bytes (reader st)"
    using st' st1 by simp
  ultimately show ?thesis using l e by blast
qed

lemma peek_advance_u32_at: "le_word (peek 4 (advance n r)) = u32_at (cur r + n) r"
  by (simp add: u32_at_def peek_def)

lemma read_sections_Done:
  assumes res: "read_sections tbl fuel st = Done u st'"
    and empty: "sections (bin st) = Map.empty"
    and le: "cur (reader st) \<le> cap (reader st)"
  shows "\<exists>ty off version linked entries.
      sections (bin st') =
        [''type'' \<mapsto> String (chars ty), ''version'' \<mapsto> U32 version,
         ''linked'' \<mapsto> List (STRING tbl) linked,
         ''entries'' \<mapsto> Map_v (HASH tbl) (EMBED tbl) entries] \<and>
      (ty = ''PROP'' \<and> off = 4 \<or> ty = ''PTCH'' \<and> off = 16) \<and>
      version = u32_at (cur (reader st) + off) (reader st) \<and>
      (\<forall>v\<in>set linked. \<exists>s. v = String s) \<and> (version < 2 \<longrightarrow> linked = []) \<and>
      (\<forall>kv\<in>set entries. \<exists>h n fs. kv = (Hash h, Embed n fs) \<and>
              (value_initialised tbl \<longrightarrow> (\<forall>f\<in>set fs. good tbl (snd f)))) \<and>
      cur (reader st') = cap (reader st') \<and> bytes (reader st') = bytes (reader st)"
proof -
  from res obtain ty off st4 st5 where
    ty: "ty = ''PROP'' \<and> off = 4 \<or> ty = ''PTCH'' \<and> off = 16"
    and st4: "st4 = emplace ''version'' (U32 (u32_at (cur (reader st) + off) (reader st)))
               (emplace ''type'' (String (chars ty)) (st\<lparr>reader := advance off (reader st)\<rparr>)
                \<lparr>reader := advance (off + 4) (reader st)\<rparr>)"
    and le4: "cur (reader st) + off + 4 \<le> cap (reader st)"
    and linked: "read_linked tbl (2 \<le> u32_at (cur (reader st) + off) (reader st)) st4 = Done () st5"
    and entries: "read_entries tbl fuel st5 = Done () st'"
    and end_: "cur (reader st') = cap (reader st')"
    apply (clarsimp simp: read_sections_def Done_iffs Let_def read_True_iffs sizeof_def
        peek_advance_u32_at split: if_splits)
     apply (drule_tac x = "''PTCH''" in meta_spec, drule_tac x = 16 in meta_spec)
     apply (simp add: add.commute)
    apply (drule_tac x = "''PROP''" in meta_spec, drule_tac x = 4 in meta_spec)
    apply (simp add: add.commute)
    done
  have s4: "sections (bin st4) =
      [''type'' \<mapsto> String (chars ty),
       ''version'' \<mapsto> U32 (u32_at (cur (reader st) + off) (reader st))]"
    using st4 empty by (simp add: sections_emplace)
  then have dom4: "dom (sections (bin st4)) = {''type'', ''version''}"
    by auto
  have le4': "cur (reader st4) \<le> cap (reader st4)"
    using st4 le4 by simp
  from read_linked_entries_Done [OF linked entries le4' dom4] s4 st4 ty end_
  show ?thesis
    by (auto simp: not_le)
qed

lemma read_binary_Inr:
  assumes "read_binary tbl this data = Some (Inr (), b)"
  shows "\<exists>ty off version linked entries.
      sections b =
        [''type'' \<mapsto> String (chars ty), ''version'' \<mapsto> U32 version,
         ''linked'' \<mapsto> List (STRING tbl) linked,
         ''entries'' \<mapsto> Map_v (HASH tbl) (EMBED tbl) entries] \<and>
      (ty = ''PROP'' \<and> off = 4 \<or> ty = ''PTCH'' \<and> off = 16) \<and>
      version = u32_at off \<lparr>bytes = data, cur = 0\<rparr> \<and>
      (\<forall>v\<in>set linked. \<exists>s. v = String s) \<and> (version < 2 \<longrightarrow> linked = []) \<and>
      (\<forall>kv\<in>set entries. \<exists>h n fs. kv = (Hash h, Embed n fs) \<and>
              (value_initialised tbl \<longrightarrow> (\<forall>f\<in>set fs. good tbl (snd f))))"
proof -
  let ?st = "\<lparr>bin = this\<lparr>sections := Map.empty\<rparr>, reader = \<lparr>bytes = data, cur = 0\<rparr>, error = []\<rparr>"
  from assms obtain st' where "read_sections tbl (Suc (length data)) ?st = Done () st'"
    and b: "b = bin st'"
    by (auto simp: read_binary_def process_def Let_def Done_iffs split: outcome.splits)
  from read_sections_Done [OF this(1)] b show ?thesis
    by simp blast
qed

lemma good_not_None: "good tbl v \<Longrightarrow> \<not> contains_None v"
  by (simp add: good_def)

lemma good_nesting_ok: "good tbl v \<Longrightarrow> nesting_ok tbl v"
  by (simp add: good_def)

lemma read_value_of_None:
  "from_type tbl type = None_v \<Longrightarrow>
   read_value_of tbl (Suc fuel) type st = fail_msg ''false'' (cur (reader st)) st"
  by (simp add: read_value_visit_def read_value_visit_None_def assert_cond_def fail_msg_def)

lemma read_Type_accepts:
  assumes "cur r < cap r" "bytes r ! cur r = t"
    and "if is_primitive tbl t then t \<le> MAX_PRIMITIVE tbl else t \<le> MAX_COMPLEX tbl"
  shows "read_Type tbl value r = (True, t, advance 1 r)"
proof -
  from assms(1) have "peek 1 r = [bytes r ! cur r]"
    by (simp add: peek_def cap_def take_Suc_conv_app_nth)
  with assms show ?thesis
    by (simp add: read_Type_True_iff)
qed

lemma document_no_None:
  assumes init: "value_initialised tbl"
    and res: "read_binary tbl this data = Some (Inr (), b)"
    and v: "sections b name = Some v"
  shows "\<not> contains_None v"
proof -
  from read_binary_Inr [OF res] obtain ty version linked entries where
    s: "sections b =
        [''type'' \<mapsto> String (chars ty), ''version'' \<mapsto> U32 version,
         ''linked'' \<mapsto> List (STRING tbl) linked,
         ''entries'' \<mapsto> Map_v (HASH tbl) (EMBED tbl) entries]"
    and l: "\<forall>v\<in>set linked. \<exists>s. v = String s"
    and e: "\<forall>kv\<in>set entries. \<exists>h n fs. kv = (Hash h, Embed n fs) \<and>
              (value_initialised tbl \<longrightarrow> (\<forall>f\<in>set fs. good tbl (snd f)))"
    by (elim exE conjE)
  from l have nl: "\<not> contains_None (List (STRING tbl) linked)"
    by auto
  have ne: "\<not> contains_None (Map_v (HASH tbl) (EMBED tbl) entries)"
  proof
    assume "contains_None (Map_v (HASH tbl) (EMBED tbl) entries)"
    then obtain kv where kv: "kv \<in> set entries" "contains_None (fst kv) \<or> contains_None (snd kv)"
      by auto
    with e init obtain h n fs where "kv = (Hash h, Embed n fs)" "\<forall>f\<in>set fs. good tbl (snd f)"
      by blast
    with kv(2) show False by (auto dest: good_not_None)
  qed
  from v s nl ne show ?thesis
    by (auto split: if_splits)
qed

lemma List_container:
  assumes "read_Type tbl valueType (reader st) = (True, t, r)" "is_container tbl t"
  shows "read_value_visit_List tbl rv valueType items st =
     fail_msg ''!is_container(value.valueType)'' (cur r) (st\<lparr>reader := r\<rparr>)"
  using assms
  by (simp add: read_value_visit_List_def assert_read_True assert_cond_def fail_msg_def)

lemma List2_container:
  assumes "read_Type tbl valueType (reader st) = (True, t, r)" "is_container tbl t"
  shows "read_value_visit_List2 tbl rv valueType items st =
     fail_msg ''!is_container(value.valueType)'' (cur r) (st\<lparr>reader := r\<rparr>)"
  using assms
  by (simp add: read_value_visit_List2_def assert_read_True assert_cond_def fail_msg_def)

lemma Option_container:
  assumes "read_Type tbl valueType (reader st) = (True, t, r)" "is_container tbl t"
  shows "read_value_visit_Option tbl rv valueType items st =
     fail_msg ''!is_container(value.valueType)'' (cur r) (st\<lparr>reader := r\<rparr>)"
  using assms
  by (simp add: read_value_visit_Option_def assert_read_True assert_cond_def fail_msg_def)

lemma Map_key_not_primitive:
  assumes "read_Type tbl keyType (reader st) = (True, k, r)" "\<not> is_primitive tbl k"
  shows "read_value_visit_Map tbl rv keyType valueType items st =
     fail_msg ''is_primitive(value.keyType)'' (cur r) (st\<lparr>reader := r\<rparr>)"
  using assms
  by (simp add: read_value_visit_Map_def assert_read_True assert_cond_def fail_msg_def)

lemma Map_container:
  assumes "read_Type tbl keyType (reader st) = (True, k, r)" "is_primitive tbl k"
    "read_Type tbl valueType r = (True, t, r')" "is_container tbl t"
  shows "read_value_visit_Map tbl rv keyType valueType items st =
     fail_msg ''!is_container(value.valueType)'' (cur r') (st\<lparr>reader := r'\<rparr>)"
  using assms
  by (simp add: read_value_visit_Map_def assert_read_True assert_cond_def fail_msg_def)

lemma entries_nesting_ok:
  assumes init: "value_initialised tbl"
    and res: "read_binary tbl this data = Some (Inr (), b)"
    and s: "sections b ''entries'' = Some (Map_v keyType valueType entries)"
    and kv: "(k, e) \<in> set entries"
  shows "nesting_ok tbl k \<and> nesting_ok tbl e"
proof -
  from read_binary_Inr [OF res] obtain ty version linked entries' where
    s': "sections b =
        [''type'' \<mapsto> String (chars ty), ''version'' \<mapsto> U32 version,
         ''linked'' \<mapsto> List (STRING tbl) linked,
         ''entries'' \<mapsto> Map_v (HASH tbl) (EMBED tbl) entries']"
    and e: "\<forall>kv\<in>set entries'. \<exists>h n fs. kv = (Hash h, Embed n fs) \<and>
              (value_initialised tbl \<longrightarrow> (\<forall>f\<in>set fs. good tbl (snd f)))"
    by (elim exE conjE)
  from s s' have "entries' = entries" by simp
  with e kv init obtain h n fs where "k = Hash h" "e = Embed n fs" "\<forall>f\<in>set fs. good tbl (snd f)"
    by blast
  then show ?thesis by (auto dest: good_nesting_ok)
qed

subsection \<open>Evaluation on concrete buffers\<close>

lemma chunks_numeral:
  "chunks w (numeral n) bs = take w bs # chunks w (pred_numeral n) (drop w bs)"
  by (simp add: numeral_eq_Suc)

lemma read_value_of_numeral:
  "read_value_of tbl (numeral n) type st =
     read_value_visit tbl (read_value_of tbl (pred_numeral n)) (from_type tbl type) st"
  by (simp add: numeral_eq_Suc)

lemma read_fields_numeral:
  "read_fields rv tbl (numeral n) items st =
     then_do (assert_read ''reader.read(name)'' (read_FNV1a 0) st) (\<lambda>name st.
     then_do (assert_read ''reader.read(type)'' (read_Type tbl 0) st) (\<lambda>type st.
     then_do (assert_call ''read_value_of(item, type)'' (rv type) st) (\<lambda>item st.
     read_fields rv tbl (pred_numeral n) (items @ [(name, item)]) st)))"
  by (simp add: numeral_eq_Suc)

lemma read_items_numeral:
  "read_items rv valueType (numeral n) items st =
     then_do (assert_call ''read_value_of(item, value.valueType)'' (rv valueType) st) (\<lambda>item st.
     read_items rv valueType (pred_numeral n) (items @ [item]) st)"
  by (simp add: numeral_eq_Suc)

lemma read_pairs_numeral:
  "read_pairs rv keyType valueType (numeral n) items st =
     then_do (assert_call ''read_value_of(key, value.keyType)'' (rv keyType) st) (\<lambda>key st.
     then_do (assert_call ''read_value_of(item, value.valueType)'' (rv valueType) st) (\<lambda>item st.
     read_pairs rv keyType valueType (pred_numeral n) (items @ [(key, item)]) st))"
  by (simp add: numeral_eq_Suc)

lemma read_linked_loop_numeral:
  "read_linked_loop (numeral n) items st =
     then_do (assert_read ''reader.read(linked.value)'' (read_string []) st) (\<lambda>linked st.
     read_linked_loop (pred_numeral n) (items @ [String linked]) st)"
  by (simp add: numeral_eq_Suc)

lemmas top_defs = chunks_numeral read_value_of_numeral read_fields_numeral read_items_numeral
  read_pairs_numeral read_linked_loop_numeral
  read_binary_def process_def read_sections_def read_linked_def read_entries_def
  emplace_def chars_def

subsection \<open>The sections emplaced so far\<close>

lemma emplacesI:
  assumes "\<And>st st'. cur (reader st) \<le> cap (reader st) \<Longrightarrow> dom (sections (bin st)) = D \<Longrightarrow>
             p st = Failed st' \<Longrightarrow> dom (sections (bin st')) \<in> partial_docs"
    and "\<And>st v st'. cur (reader st) \<le> cap (reader st) \<Longrightarrow> dom (sections (bin st)) = D \<Longrightarrow>
             p st = Done v st' \<Longrightarrow>
             dom (sections (bin st')) = D' \<and> cur (reader st') \<le> cap (reader st')"
  shows "emplaces D D' p"
  unfolding emplaces_def
proof (intro allI impI)
  fix st :: BinBinaryReader
  assume "cur (reader st) \<le> cap (reader st) \<and> dom (sections (bin st)) = D"
  then show "case p st of
           OutOfFuel \<Rightarrow> True
         | Failed st' \<Rightarrow> dom (sections (bin st')) \<in> partial_docs
         | Done v st' \<Rightarrow>
             dom (sections (bin st')) = D' \<and> cur (reader st') \<le> cap (reader st')"
    using assms [of st] by (cases "p st") simp_all
qed

lemma emplaces_FailedD:
  "emplaces D D' p \<Longrightarrow> cur (reader st) \<le> cap (reader st) \<Longrightarrow> dom (sections (bin st)) = D \<Longrightarrow>
   p st = Failed st' \<Longrightarrow> dom (sections (bin st')) \<in> partial_docs"
  unfolding emplaces_def by (drule spec [of _ st]) simp

lemma emplaces_DoneD:
  "emplaces D D' p \<Longrightarrow> cur (reader st) \<le> cap (reader st) \<Longrightarrow> dom (sections (bin st)) = D \<Longrightarrow>
   p st = Done v st' \<Longrightarrow>
   dom (sections (bin st')) = D' \<and> cur (reader st') \<le> cap (reader st')"
  unfolding emplaces_def by (drule spec [of _ st]) simp

lemma emplaces_frames:
  assumes p: "frames f p" and D: "D \<in> partial_docs"
  shows "emplaces D D p"
proof (rule emplacesI)
  fix st st' :: BinBinaryReader
  assume "cur (reader st) \<le> cap (reader st)" "dom (sections (bin st)) = D" "p st = Failed st'"
  with frames_FailedD [OF p this(1,3)] D show "dom (sections (bin st')) \<in> partial_docs"
    by simp
next
  fix st st' :: BinBinaryReader and v
  assume "cur (reader st) \<le> cap (reader st)" "dom (sections (bin st)) = D" "p st = Done v st'"
  with frames_DoneD [OF p this(1,3)]
  show "dom (sections (bin st')) = D \<and> cur (reader st') \<le> cap (reader st')"
    by auto
qed

lemma emplaces_then_do:
  assumes p: "emplaces D D' p" and k: "\<And>v. emplaces D' D'' (k v)"
  shows "emplaces D D'' (\<lambda>st. then_do (p st) k)"
proof (rule emplacesI)
  fix st st' :: BinBinaryReader
  assume a: "cur (reader st) \<le> cap (reader st)" "dom (sections (bin st)) = D"
    and "then_do (p st) k = Failed st'"
  then consider "p st = Failed st'" | v st1 where "p st = Done v st1" "k v st1 = Failed st'"
    by (auto simp: then_do_Failed_iff)
  then show "dom (sections (bin st')) \<in> partial_docs"
  proof cases
    case 1
    with p a show ?thesis by (rule emplaces_FailedD)
  next
    case 2
    from emplaces_DoneD [OF p a 2(1)] emplaces_FailedD [OF k _ _ 2(2)]
    show ?thesis by simp
  qed
next
  fix st st' :: BinBinaryReader and w
  assume a: "cur (reader st) \<le> cap (reader st)" "dom (sections (bin st)) = D"
    and "then_do (p st) k = Done w st'"
  then obtain v st1 where 1: "p st = Done v st1" and 2: "k v st1 = Done w st'"
    by (auto simp: then_do_Done_iff)
  from emplaces_DoneD [OF p a 1] emplaces_DoneD [OF k _ _ 2]
  show "dom (sections (bin st')) = D'' \<and> cur (reader st') \<le> cap (reader st')"
    by simp
qed

lemma emplaces_assert_call:
  assumes p: "emplaces D D' p"
  shows "emplaces D D' (assert_call msg p)"
proof (rule emplacesI)
  fix st st' :: BinBinaryReader
  assume a: "cur (reader st) \<le> cap (reader st)" "dom (sections (bin st)) = D"
    and "assert_call msg p st = Failed st'"
  then obtain st1 where 1: "p st = Failed st1"
    and st': "st' = st1\<lparr>error := error st1 @ [(msg, cur (reader st))]\<rparr>"
    by (auto simp: assert_call_Failed_iff)
  from emplaces_FailedD [OF p a 1] st' show "dom (sections (bin st')) \<in> partial_docs"
    by simp
next
  fix st st' :: BinBinaryReader and v
  assume a: "cur (reader st) \<le> cap (reader st)" "dom (sections (bin st)) = D"
    and "assert_call msg p st = Done v st'"
  then have "p st = Done v st'" by (simp add: assert_call_Done_iff)
  with p a show "dom (sections (bin st')) = D' \<and> cur (reader st') \<le> cap (reader st')"
    by (rule emplaces_DoneD)
qed

lemma emplaces_cond:
  assumes D: "D \<in> partial_docs"
  shows "emplaces D D (\<lambda>st. assert_cond msg (C st) st)"
proof (rule emplacesI)
  fix st st' :: BinBinaryReader
  assume "dom (sections (bin st)) = D" "assert_cond msg (C st) st = Failed st'"
  with D show "dom (sections (bin st')) \<in> partial_docs"
    by (simp add: assert_cond_Failed_iff)
next
  fix st st' :: BinBinaryReader and v
  assume "cur (reader st) \<le> cap (reader st)" "dom (sections (bin st)) = D"
    "assert_cond msg (C st) st = Done v st'"
  then show "dom (sections (bin st')) = D \<and> cur (reader st') \<le> cap (reader st')"
    by (simp add: assert_cond_Done_iff)
qed

lemma emplaces_emplace: "emplaces D (insert k D) (\<lambda>st. Done v (emplace k x st))"
proof (rule emplacesI)
  fix st st' :: BinBinaryReader and w
  assume "cur (reader st) \<le> cap (reader st)" "dom (sections (bin st)) = D"
    "Done v (emplace k x st) = Done w st'"
  then show "dom (sections (bin st')) = insert k D \<and> cur (reader st') \<le> cap (reader st')"
    by (auto simp: sections_emplace split: if_splits)
qed simp

lemma emplaces_Done: "emplaces D D (Done v)"
  by (rule emplacesI) simp_all

lemma emplaces_if:
  "emplaces D D' p \<Longrightarrow> emplaces D D' q \<Longrightarrow> emplaces D D' (\<lambda>st. if b then p st else q st)"
  by (cases b) simp_all

lemma emplaces_after_emplace:
  assumes p: "emplaces (insert k D) D' p"
  shows "emplaces D D' (\<lambda>st. p (emplace k x st))"
proof (rule emplacesI)
  fix st st' :: BinBinaryReader
  assume a: "cur (reader st) \<le> cap (reader st)" "dom (sections (bin st)) = D"
    and r: "p (emplace k x st) = Failed st'"
  from a have "cur (reader (emplace k x st)) \<le> cap (reader (emplace k x st))"
    "dom (sections (bin (emplace k x st))) = insert k D"
    by (auto simp: sections_emplace split: if_splits)
  with p show "dom (sections (bin st')) \<in> partial_docs"
    using r by (rule emplaces_FailedD)
next
  fix st st' :: BinBinaryReader and v
  assume a: "cur (reader st) \<le> cap (reader st)" "dom (sections (bin st)) = D"
    and r: "p (emplace k x st) = Done v st'"
  from a have "cur (reader (emplace k x st)) \<le> cap (reader (emplace k x st))"
    "dom (sections (bin (emplace k x st))) = insert k D"
    by (auto simp: sections_emplace split: if_splits)
  with p show "dom (sections (bin st')) = D' \<and> cur (reader st') \<le> cap (reader st')"
    using r by (rule emplaces_DoneD)
qed

lemma emplaces_read_linked:
  "emplaces {''type'', ''version''} {''type'', ''version'', ''linked''} (read_linked tbl hasLinks)"
proof -
  have "emplaces {''type'', ''version''} (insert ''linked'' {''type'', ''version''})
      (read_linked tbl hasLinks)"
    unfolding read_linked_def [abs_def]
    apply (rule emplaces_then_do [OF emplaces_frames [where f = 0]])
      apply (intro frames_if frames_then_do frames_intros frames_read_linked_loop)
     apply (simp add: partial_docs_def)
    apply (rule emplaces_emplace)
    done
  also have "insert ''linked'' {''type'', ''version''} = {''type'', ''version'', ''linked''}"
    by auto
  finally show ?thesis .
qed

lemma emplaces_read_entries:
  "emplaces {''type'', ''version'', ''linked''} {''type'', ''version'', ''linked'', ''entries''}
     (read_entries tbl fuel)"
proof -
  have "emplaces {''type'', ''version'', ''linked''}
      (insert ''entries'' {''type'', ''version'', ''linked''}) (read_entries tbl fuel)"
    unfolding read_entries_def [abs_def]
    apply (rule emplaces_then_do [OF emplaces_frames [where f = fuel]])
      apply (intro frames_then_do frames_intros)
     apply (simp add: partial_docs_def)
    apply (rule emplaces_then_do [OF emplaces_frames [where f = fuel]])
      apply (intro frames_then_do frames_intros)
     apply (simp add: partial_docs_def)
    apply (rule emplaces_then_do [OF emplaces_frames [where f = fuel]])
      apply (rule frames_read_entries_loop)
     apply (simp add: partial_docs_def)
    apply (rule emplaces_emplace)
    done
  also have "insert ''entries'' {''type'', ''version'', ''linked''} =
      {''type'', ''version'', ''linked'', ''entries''}"
    by auto
  finally show ?thesis .
qed

lemma partial_docs_simps [simp]:
  "{} \<in> partial_docs" "{''type''} \<in> partial_docs" "{''type'', ''version''} \<in> partial_docs"
  "{''type'', ''version'', ''linked''} \<in> partial_docs"
  "{''type'', ''version'', ''linked'', ''entries''} \<in> partial_docs"
  by (simp_all add: partial_docs_def)

lemma emplaces_read_sections:
  "emplaces {} {''type'', ''version'', ''linked'', ''entries''} (read_sections tbl fuel)"
proof -
  have tail: "emplaces {''type'', ''version''} {''type'', ''version'', ''linked'', ''entries''}
     (\<lambda>st. then_do (assert_call ''read_linked(version >= 2)'' (read_linked tbl h) st) (\<lambda>_ st.
     then_do (assert_call ''read_entries()'' (read_entries tbl fuel) st) (\<lambda>_ st.
     then_do (assert_cond ''reader.cur_ == reader.cap_''
                (cur (reader st) = cap (reader st)) st) (\<lambda>_ st.
     Done () st))))" for h
    apply (rule emplaces_then_do [OF emplaces_assert_call [OF emplaces_read_linked]])
    apply (rule emplaces_then_do [OF emplaces_assert_call [OF emplaces_read_entries]])
    apply (rule emplaces_then_do [OF emplaces_cond])
     apply simp
    apply (rule emplaces_Done)
    done
  have i: "insert ''version'' {''type''} = {''type'', ''version''}"
    by auto
  have version: "emplaces {''type''} {''type'', ''version'', ''linked'', ''entries''}
     (\<lambda>st. then_do (assert_call ''read_linked(version >= 2)'' (read_linked tbl h)
                (emplace ''version'' v st)) (\<lambda>_ st.
     then_do (assert_call ''read_entries()'' (read_entries tbl fuel) st) (\<lambda>_ st.
     then_do (assert_cond ''reader.cur_ == reader.cap_''
                (cur (reader st) = cap (reader st)) st) (\<lambda>_ st.
     Done () st))))" for h v
    using tail [of h] by (intro emplaces_after_emplace) (simp add: i)
  have header: "emplaces {} {''type''}
     (\<lambda>st. if magic = chars ''PTCH'' then
          then_do (assert_read ''reader.read(unk)'' (read (0::64 word)) st) (\<lambda>unk st.
          then_do (assert_read ''reader.read(magic)'' (read_array 4 magic) st) (\<lambda>magic st.
          Done magic (emplace ''type'' (String (chars ''PTCH'')) st)))
        else Done magic (emplace ''type'' (String (chars ''PROP'')) st))" for magic
    apply (rule emplaces_if)
     apply (rule emplaces_then_do [OF emplaces_frames [OF frames_assert_read [OF reads_read]]])
      apply simp
     apply (rule emplaces_then_do
        [OF emplaces_frames [OF frames_assert_read [OF reads_read_array]]])
      apply simp
     apply (rule emplaces_emplace)
    apply (rule emplaces_emplace)
    done
  show ?thesis
    unfolding read_sections_def [abs_def] Let_def
    apply (rule emplaces_then_do
        [OF emplaces_frames [OF frames_assert_read [OF reads_read_array]]])
     apply simp
    apply (rule emplaces_then_do [OF header])
    apply (rule emplaces_then_do [OF emplaces_cond])
     apply simp
    apply (rule emplaces_then_do
        [OF emplaces_frames [OF frames_assert_read [OF reads_read]]])
     apply simp
    apply (rule version)
    done
qed

lemma read_binary_Inl:
  assumes "read_binary tbl this data = Some (Inl msg, b)"
  shows "dom (sections b) \<in> partial_docs"
proof -
  let ?st = "\<lparr>bin = this\<lparr>sections := Map.empty\<rparr>, reader = \<lparr>bytes = data, cur = 0\<rparr>, error = []\<rparr>"
  from assms obtain st1 where "read_sections tbl (Suc (length data)) ?st = Failed st1"
    and b: "sections b = sections (bin st1)"
    by (auto simp: read_binary_def process_def Let_def Done_iffs assert_call_Failed_iff
        split: outcome.splits)
  from emplaces_FailedD [OF emplaces_read_sections _ _ this(1)] b show ?thesis
    by simp
qed

lemma Bin_sections_update: "(this::Bin)\<lparr>sections := m\<rparr> = this'\<lparr>sections := m\<rparr>"
  by (cases this, cases this') simp

lemma read_binary_this: "read_binary tbl this data = read_binary tbl this' data"
  by (simp add: read_binary_def process_def Bin_sections_update [where this = this and this' = this'])

lemma read_binary_doc_a:
  "read_binary spec_table this doc_a =
     Some (Inr (), \<lparr>sections = [''type'' \<mapsto> String (chars ''PROP''), ''version'' \<mapsto> U32 0,
         ''linked'' \<mapsto> List 0x10 [],
         ''entries'' \<mapsto> Map_v 0x11 0x84 []]\<rparr>)"
  by (simp add: doc_a_def top_defs run_defs)

lemma read_binary_doc_b:
  "read_binary spec_table this doc_b =
     Some (Inr (), \<lparr>sections = [''type'' \<mapsto> String (chars ''PROP''), ''version'' \<mapsto> U32 2,
         ''linked'' \<mapsto> List 0x10 [String (chars ''ab'')],
         ''entries'' \<mapsto> Map_v 0x11 0x84 []]\<rparr>)"
  by (simp add: doc_b_def top_defs run_defs)

lemma read_binary_doc_e:
  "read_binary spec_table this doc_e =
     Some (Inr (), \<lparr>sections = [''type'' \<mapsto> String (chars ''PROP''), ''version'' \<mapsto> U32 0,
         ''linked'' \<mapsto> List 0x10 [],
         ''entries'' \<mapsto> Map_v 0x11 0x84
            [(Hash 0xBB, Embed 0xAA [(1, U8 7), (2, List 0x04 [I16 1, I16 2])])]]\<rparr>)"
  by (simp add: doc_e_def top_defs run_defs)

lemma read_binary_doc_t:
  "read_binary spec_table this doc_t =
     Some (Inl ''read_sections() @ 0\<newline>reader.read(version) @ -4\<newline>'',
           \<lparr>sections = [''type'' \<mapsto> String (chars ''PROP'')]\<rparr>)"
  by (simp add: doc_t_def top_defs run_defs render_def to_string_def to_string_nat.simps)

lemma read_binary_doc_x:
  "read_binary spec_table this (doc_a @ [0]) =
     Some (Inl ''read_sections() @ 0\<newline>reader.cur_ == reader.cap_ @ -12\<newline>'',
           \<lparr>sections = [''type'' \<mapsto> String (chars ''PROP''), ''version'' \<mapsto> U32 0,
         ''linked'' \<mapsto> List 0x10 [],
         ''entries'' \<mapsto> Map_v 0x11 0x84 []]\<rparr>)"
  by (simp add: doc_a_def top_defs run_defs render_def to_string_def to_string_nat.simps)

subsection \<open>Decoding a longer buffer, decoding with more fuel\<close>

lemma stableI:
  assumes "\<And>st. cur (reader st) \<le> cap (reader st) \<Longrightarrow> p st = OutOfFuel \<Longrightarrow>
             f \<le> cap (reader st) - cur (reader st)"
    and "\<And>st st'. cur (reader st) \<le> cap (reader st) \<Longrightarrow> p st = Failed st' \<Longrightarrow>
             within (reader st) (reader st')"
    and "\<And>st v st'. cur (reader st) \<le> cap (reader st) \<Longrightarrow> p st = Done v st' \<Longrightarrow>
             \<exists>n. reader st' = advance n (reader st) \<and>
                cur (reader st) + n \<le> cap (reader st) \<and>
                (\<forall>st2. cur (reader st2) = cur (reader st) \<and>
                       cur (reader st2) + n \<le> cap (reader st2) \<and>
                       peek n (reader st2) = peek n (reader st) \<and> bin st2 = bin st \<longrightarrow>
                       (\<exists>st2'. p st2 = Done v st2' \<and> reader st2' = advance n (reader st2) \<and>
                               bin st2' = bin st') \<or>
                       (\<exists>st2'. p st2 = Failed st2'))"
  shows "stable f p"
  unfolding stable_def
proof (intro allI impI)
  fix st :: BinBinaryReader
  assume "cur (reader st) \<le> cap (reader st)"
  then show "case p st of
           OutOfFuel \<Rightarrow> f \<le> cap (reader st) - cur (reader st)
         | Failed st' \<Rightarrow> within (reader st) (reader st')
         | Done v st' \<Rightarrow>
             (\<exists>n. reader st' = advance n (reader st) \<and>
                cur (reader st) + n \<le> cap (reader st) \<and>
                (\<forall>st2. cur (reader st2) = cur (reader st) \<and>
                       cur (reader st2) + n \<le> cap (reader st2) \<and>
                       peek n (reader st2) = peek n (reader st) \<and> bin st2 = bin st \<longrightarrow>
                       (\<exists>st2'. p st2 = Done v st2' \<and> reader st2' = advance n (reader st2) \<and>
                               bin st2' = bin st') \<or>
                       (\<exists>st2'. p st2 = Failed st2')))"
    using assms [of st] by (cases "p st") simp_all
qed

lemma stable_OutOfFuelD:
  "stable f p \<Longrightarrow> cur (reader st) \<le> cap (reader st) \<Longrightarrow> p st = OutOfFuel \<Longrightarrow>
   f \<le> cap (reader st) - cur (reader st)"
  unfolding stable_def by (drule spec [of _ st]) simp

lemma stable_FailedD:
  "stable f p \<Longrightarrow> cur (reader st) \<le> cap (reader st) \<Longrightarrow> p st = Failed st' \<Longrightarrow>
   within (reader st) (reader st')"
  unfolding stable_def by (drule spec [of _ st]) simp

lemma stable_DoneD:
  "stable f p \<Longrightarrow> cur (reader st) \<le> cap (reader st) \<Longrightarrow> p st = Done v st' \<Longrightarrow>
   \<exists>n. reader st' = advance n (reader st) \<and>
      cur (reader st) + n \<le> cap (reader st) \<and>
      (\<forall>st2. cur (reader st2) = cur (reader st) \<and>
             cur (reader st2) + n \<le> cap (reader st2) \<and>
             peek n (reader st2) = peek n (reader st) \<and> bin st2 = bin st \<longrightarrow>
             (\<exists>st2'. p st2 = Done v st2' \<and> reader st2' = advance n (reader st2) \<and>
                     bin st2' = bin st') \<or>
             (\<exists>st2'. p st2 = Failed st2'))"
  unfolding stable_def by (drule spec [of _ st]) simp

lemma within_refl [simp]: "cur r \<le> cap r \<Longrightarrow> within r r"
  by (simp add: within_def)

lemma within_advance [simp]: "cur r + n \<le> cap r \<Longrightarrow> within r (advance n r)"
  by (simp add: within_def)

lemma within_trans: "within r r' \<Longrightarrow> within r' r'' \<Longrightarrow> within r r''"
  by (simp add: within_def cap_def)

lemma stable_frames:
  assumes p: "frames f p"
  shows "stable f p"
proof (rule stableI)
  fix st :: BinBinaryReader
  assume "cur (reader st) \<le> cap (reader st)" "p st = OutOfFuel"
  with p show "f \<le> cap (reader st) - cur (reader st)" by (rule frames_OutOfFuelD)
next
  fix st st' :: BinBinaryReader
  assume "cur (reader st) \<le> cap (reader st)" "p st = Failed st'"
  with p have "bin st' = bin st \<and> bytes (reader st') = bytes (reader st) \<and>
        cur (reader st) \<le> cur (reader st') \<and> cur (reader st') \<le> cap (reader st)"
    by (rule frames_FailedD)
  then show "within (reader st) (reader st')" by (simp add: within_def)
next
  fix st st' :: BinBinaryReader and v
  assume "cur (reader st) \<le> cap (reader st)" "p st = Done v st'"
  with p obtain n where n: "st' = st\<lparr>reader := advance n (reader st)\<rparr>"
    "cur (reader st) + n \<le> cap (reader st)"
    "\<forall>st2. cur (reader st2) = cur (reader st) \<and> cur (reader st2) + n \<le> cap (reader st2) \<and>
         peek n (reader st2) = peek n (reader st) \<longrightarrow>
         p st2 = Done v (st2\<lparr>reader := advance n (reader st2)\<rparr>)"
    by (blast dest: frames_DoneD)
  show "\<exists>n. reader st' = advance n (reader st) \<and>
                cur (reader st) + n \<le> cap (reader st) \<and>
                (\<forall>st2. cur (reader st2) = cur (reader st) \<and>
                       cur (reader st2) + n \<le> cap (reader st2) \<and>
                       peek n (reader st2) = peek n (reader st) \<and> bin st2 = bin st \<longrightarrow>
                       (\<exists>st2'. p st2 = Done v st2' \<and> reader st2' = advance n (reader st2) \<and>
                               bin st2' = bin st') \<or>
                       (\<exists>st2'. p st2 = Failed st2'))"
  proof (intro exI [of _ n] conjI allI impI)
    fix st2 :: BinBinaryReader
    assume a: "cur (reader st2) = cur (reader st) \<and> cur (reader st2) + n \<le> cap (reader st2) \<and>
        peek n (reader st2) = peek n (reader st) \<and> bin st2 = bin st"
    with n(3) have "p st2 = Done v (st2\<lparr>reader := advance n (reader st2)\<rparr>)" by blast
    with a n(1) show "(\<exists>st2'. p st2 = Done v st2' \<and> reader st2' = advance n (reader st2) \<and>
                               bin st2' = bin st') \<or> (\<exists>st2'. p st2 = Failed st2')"
      by simp
  qed (use n in simp_all)
qed

lemma stable_then_do:
  assumes p: "stable f p" and k: "\<And>v. stable f (k v)"
  shows "stable f (\<lambda>st. then_do (p st) k)"
proof (rule stableI)
  fix st :: BinBinaryReader
  assume le: "cur (reader st) \<le> cap (reader st)" and "then_do (p st) k = OutOfFuel"
  then consider "p st = OutOfFuel" | v st1 where "p st = Done v st1" "k v st1 = OutOfFuel"
    by (auto simp: then_do_OutOfFuel_iff)
  then show "f \<le> cap (reader st) - cur (reader st)"
  proof cases
    case 1
    with p le show ?thesis by (rule stable_OutOfFuelD)
  next
    case 2
    from stable_DoneD [OF p le 2(1)] obtain n where n: "reader st1 = advance n (reader st)"
      "cur (reader st) + n \<le> cap (reader st)" by blast
    then have le1: "cur (reader st1) \<le> cap (reader st1)" by simp
    from stable_OutOfFuelD [OF k le1 2(2)] n show ?thesis by simp
  qed
next
  fix st st' :: BinBinaryReader
  assume le: "cur (reader st) \<le> cap (reader st)" and "then_do (p st) k = Failed st'"
  then consider "p st = Failed st'" | v st1 where "p st = Done v st1" "k v st1 = Failed st'"
    by (auto simp: then_do_Failed_iff)
  then show "within (reader st) (reader st')"
  proof cases
    case 1
    with p le show ?thesis by (rule stable_FailedD)
  next
    case 2
    from stable_DoneD [OF p le 2(1)] obtain n where n: "reader st1 = advance n (reader st)"
      "cur (reader st) + n \<le> cap (reader st)" by blast
    then have le1: "cur (reader st1) \<le> cap (reader st1)" by simp
    from n have "within (reader st) (reader st1)" by simp
    with stable_FailedD [OF k le1 2(2)] show ?thesis by (rule within_trans [rotated])
  qed
next
  fix st st' :: BinBinaryReader and w
  assume le: "cur (reader st) \<le> cap (reader st)" and "then_do (p st) k = Done w st'"
  then obtain v st1 where 1: "p st = Done v st1" and 2: "k v st1 = Done w st'"
    by (auto simp: then_do_Done_iff)
  from stable_DoneD [OF p le 1] obtain n where n: "reader st1 = advance n (reader st)"
    "cur (reader st) + n \<le> cap (reader st)"
    "\<forall>st2. cur (reader st2) = cur (reader st) \<and> cur (reader st2) + n \<le> cap (reader st2) \<and>
        peek n (reader st2) = peek n (reader st) \<and> bin st2 = bin st \<longrightarrow>
        (\<exists>st2'. p st2 = Done v st2' \<and> reader st2' = advance n (reader st2) \<and> bin st2' = bin st1) \<or>
        (\<exists>st2'. p st2 = Failed st2')"
    by blast
  then have le1: "cur (reader st1) \<le> cap (reader st1)" by simp
  from stable_DoneD [OF k le1 2] obtain m where m: "reader st' = advance m (reader st1)"
    "cur (reader st1) + m \<le> cap (reader st1)"
    "\<forall>st2. cur (reader st2) = cur (reader st1) \<and> cur (reader st2) + m \<le> cap (reader st2) \<and>
        peek m (reader st2) = peek m (reader st1) \<and> bin st2 = bin st1 \<longrightarrow>
        (\<exists>st2'. k v st2 = Done w st2' \<and> reader st2' = advance m (reader st2) \<and> bin st2' = bin st') \<or>
        (\<exists>st2'. k v st2 = Failed st2')"
    by blast
  show "\<exists>n. reader st' = advance n (reader st) \<and>
          cur (reader st) + n \<le> cap (reader st) \<and>
          (\<forall>st2. cur (reader st2) = cur (reader st) \<and>
                 cur (reader st2) + n \<le> cap (reader st2) \<and>
                 peek n (reader st2) = peek n (reader st) \<and> bin st2 = bin st \<longrightarrow>
                 (\<exists>st2'. then_do (p st2) k = Done w st2' \<and>
                    reader st2' = advance n (reader st2) \<and> bin st2' = bin st') \<or>
                 (\<exists>st2'. then_do (p st2) k = Failed st2'))"
  proof (intro exI [of _ "n + m"] conjI allI impI)
    show "reader st' = advance (n + m) (reader st)"
      using m(1) n(1) by simp
    show "cur (reader st) + (n + m) \<le> cap (reader st)"
      using m(2) n(1) by simp
  next
    fix st2 :: BinBinaryReader
    assume a: "cur (reader st2) = cur (reader st) \<and> cur (reader st2) + (n + m) \<le> cap (reader st2) \<and>
        peek (n + m) (reader st2) = peek (n + m) (reader st) \<and> bin st2 = bin st"
    then have "peek n (reader st2) = peek n (reader st)"
      by (auto intro: peek_take)
    moreover from a have "cur (reader st2) + n \<le> cap (reader st2)"
      by simp
    ultimately have "(\<exists>st2'. p st2 = Done v st2' \<and> reader st2' = advance n (reader st2) \<and>
          bin st2' = bin st1) \<or> (\<exists>st2'. p st2 = Failed st2')"
      using a n(3) by blast
    then consider st2a where "p st2 = Done v st2a" "reader st2a = advance n (reader st2)"
      "bin st2a = bin st1" | st2a where "p st2 = Failed st2a"
      by blast
    then show "(\<exists>st2'. then_do (p st2) k = Done w st2' \<and>
                    reader st2' = advance (n + m) (reader st2) \<and> bin st2' = bin st') \<or>
                 (\<exists>st2'. then_do (p st2) k = Failed st2')"
    proof cases
      case 1
      have "peek m (advance n (reader st2)) = peek m (advance n (reader st))"
        using a by (auto intro: peek_drop)
      with a n(1) 1 have "cur (reader st2a) = cur (reader st1) \<and>
          cur (reader st2a) + m \<le> cap (reader st2a) \<and>
          peek m (reader st2a) = peek m (reader st1) \<and> bin st2a = bin st1"
        by (simp add: add.assoc)
      with m(3) have "(\<exists>st2'. k v st2a = Done w st2' \<and> reader st2' = advance m (reader st2a) \<and>
            bin st2' = bin st') \<or> (\<exists>st2'. k v st2a = Failed st2')"
        by blast
      with 1 show ?thesis by auto
    next
      case 2
      then show ?thesis by simp
    qed
  qed
qed

lemma stable_assert_call:
  assumes p: "stable f p"
  shows "stable f (assert_call msg p)"
proof (rule stableI)
  fix st :: BinBinaryReader
  assume "cur (reader st) \<le> cap (reader st)" "assert_call msg p st = OutOfFuel"
  with p show "f \<le> cap (reader st) - cur (reader st)"
    by (auto simp: assert_call_OutOfFuel_iff dest: stable_OutOfFuelD)
next
  fix st st' :: BinBinaryReader
  assume le: "cur (reader st) \<le> cap (reader st)" and "assert_call msg p st = Failed st'"
  then obtain st1 where 1: "p st = Failed st1"
    and st': "st' = st1\<lparr>error := error st1 @ [(msg, cur (reader st))]\<rparr>"
    by (auto simp: assert_call_Failed_iff)
  from stable_FailedD [OF p le 1] st' show "within (reader st) (reader st')"
    by simp
next
  fix st st' :: BinBinaryReader and w
  assume le: "cur (reader st) \<le> cap (reader st)" and "assert_call msg p st = Done w st'"
  then have "p st = Done w st'" by (simp add: assert_call_Done_iff)
  from stable_DoneD [OF p le this] obtain n where n: "reader st' = advance n (reader st)"
    "cur (reader st) + n \<le> cap (reader st)"
    "\<forall>st2. cur (reader st2) = cur (reader st) \<and> cur (reader st2) + n \<le> cap (reader st2) \<and>
        peek n (reader st2) = peek n (reader st) \<and> bin st2 = bin st \<longrightarrow>
        (\<exists>st2'. p st2 = Done w st2' \<and> reader st2' = advance n (reader st2) \<and> bin st2' = bin st') \<or>
        (\<exists>st2'. p st2 = Failed st2')"
    by blast
  show "\<exists>n. reader st' = advance n (reader st) \<and>
          cur (reader st) + n \<le> cap (reader st) \<and>
          (\<forall>st2. cur (reader st2) = cur (reader st) \<and>
                 cur (reader st2) + n \<le> cap (reader st2) \<and>
                 peek n (reader st2) = peek n (reader st) \<and> bin st2 = bin st \<longrightarrow>
                 (\<exists>st2'. assert_call msg p st2 = Done w st2' \<and>
                    reader st2' = advance n (reader st2) \<and> bin st2' = bin st') \<or>
                 (\<exists>st2'. assert_call msg p st2 = Failed st2'))"
  proof (intro exI [of _ n] conjI allI impI)
    fix st2 :: BinBinaryReader
    assume "cur (reader st2) = cur (reader st) \<and> cur (reader st2) + n \<le> cap (reader st2) \<and>
        peek n (reader st2) = peek n (reader st) \<and> bin st2 = bin st"
    with n(3) have "(\<exists>st2'. p st2 = Done w st2' \<and> reader st2' = advance n (reader st2) \<and>
        bin st2' = bin st') \<or> (\<exists>st2'. p st2 = Failed st2')"
      by blast
    then show "(\<exists>st2'. assert_call msg p st2 = Done w st2' \<and>
                    reader st2' = advance n (reader st2) \<and> bin st2' = bin st') \<or>
                 (\<exists>st2'. assert_call msg p st2 = Failed st2')"
      by (auto simp: assert_call_Done_iff assert_call_Failed_iff)
  qed (use n in simp_all)
qed

lemma stable_cond: "stable f (\<lambda>st. assert_cond msg (C st) st)"
proof (rule stableI)
  fix st st' :: BinBinaryReader
  assume "cur (reader st) \<le> cap (reader st)" "assert_cond msg (C st) st = Failed st'"
  then show "within (reader st) (reader st')"
    by (simp add: assert_cond_Failed_iff)
next
  fix st st' :: BinBinaryReader and v :: unit
  assume "cur (reader st) \<le> cap (reader st)" "assert_cond msg (C st) st = Done v st'"
  then have st': "st' = st" by (simp add: assert_cond_Done_iff)
  show "\<exists>n. reader st' = advance n (reader st) \<and>
          cur (reader st) + n \<le> cap (reader st) \<and>
          (\<forall>st2. cur (reader st2) = cur (reader st) \<and>
                 cur (reader st2) + n \<le> cap (reader st2) \<and>
                 peek n (reader st2) = peek n (reader st) \<and> bin st2 = bin st \<longrightarrow>
                 (\<exists>st2'. assert_cond msg (C st2) st2 = Done v st2' \<and>
                    reader st2' = advance n (reader st2) \<and> bin st2' = bin st') \<or>
                 (\<exists>st2'. assert_cond msg (C st2) st2 = Failed st2'))"
    using st' \<open>cur (reader st) \<le> cap (reader st)\<close>
    by (intro exI [of _ 0]) (simp add: assert_cond_def fail_msg_def)
qed simp

lemma stable_emplace: "stable f (\<lambda>st. Done v (emplace k x st))"
proof (rule stableI)
  fix st st' :: BinBinaryReader and w
  assume "cur (reader st) \<le> cap (reader st)" "Done v (emplace k x st) = Done w st'"
  then show "\<exists>n. reader st' = advance n (reader st) \<and>
          cur (reader st) + n \<le> cap (reader st) \<and>
          (\<forall>st2. cur (reader st2) = cur (reader st) \<and>
                 cur (reader st2) + n \<le> cap (reader st2) \<and>
                 peek n (reader st2) = peek n (reader st) \<and> bin st2 = bin st \<longrightarrow>
                 (\<exists>st2'. Done v (emplace k x st2) = Done w st2' \<and>
                    reader st2' = advance n (reader st2) \<and> bin st2' = bin st') \<or>
                 (\<exists>st2'. Done v (emplace k x st2) = Failed st2'))"
    by (intro exI [of _ 0]) (auto simp: bin_emplace)
qed simp_all

lemma stable_Done: "stable f (Done v)"
  by (rule stable_frames) (rule frames_Done)

lemma stable_if:
  "stable f p \<Longrightarrow> stable f q \<Longrightarrow> stable f (\<lambda>st. if b then p st else q st)"
  by (cases b) simp_all

lemma stable_after_emplace:
  assumes p: "stable f p"
  shows "stable f (\<lambda>st. p (emplace k x st))"
proof (rule stableI)
  fix st :: BinBinaryReader
  assume "cur (reader st) \<le> cap (reader st)" "p (emplace k x st) = OutOfFuel"
  with stable_OutOfFuelD [OF p, of "emplace k x st"]
  show "f \<le> cap (reader st) - cur (reader st)" by simp
next
  fix st st' :: BinBinaryReader
  assume "cur (reader st) \<le> cap (reader st)" "p (emplace k x st) = Failed st'"
  with stable_FailedD [OF p, of "emplace k x st" st']
  show "within (reader st) (reader st')" by simp
next
  fix st st' :: BinBinaryReader and w
  assume "cur (reader st) \<le> cap (reader st)" "p (emplace k x st) = Done w st'"
  with stable_DoneD [OF p, of "emplace k x st" w st']
  obtain n where n: "reader st' = advance n (reader st)"
    "cur (reader st) + n \<le> cap (reader st)"
    "\<forall>st2. cur (reader st2) = cur (reader st) \<and> cur (reader st2) + n \<le> cap (reader st2) \<and>
        peek n (reader st2) = peek n (reader st) \<and> bin st2 = bin (emplace k x st) \<longrightarrow>
        (\<exists>st2'. p st2 = Done w st2' \<and> reader st2' = advance n (reader st2) \<and> bin st2' = bin st') \<or>
        (\<exists>st2'. p st2 = Failed st2')"
    by auto
  show "\<exists>n. reader st' = advance n (reader st) \<and>
          cur (reader st) + n \<le> cap (reader st) \<and>
          (\<forall>st2. cur (reader st2) = cur (reader st) \<and>
                 cur (reader st2) + n \<le> cap (reader st2) \<and>
                 peek n (reader st2) = peek n (reader st) \<and> bin st2 = bin st \<longrightarrow>
                 (\<exists>st2'. p (emplace k x st2) = Done w st2' \<and>
                    reader st2' = advance n (reader st2) \<and> bin st2' = bin st') \<or>
                 (\<exists>st2'. p (emplace k x st2) = Failed st2'))"
  proof (intro exI [of _ n] conjI allI impI)
    fix st2 :: BinBinaryReader
    assume a: "cur (reader st2) = cur (reader st) \<and> cur (reader st2) + n \<le> cap (reader st2) \<and>
        peek n (reader st2) = peek n (reader st) \<and> bin st2 = bin st"
    then have "cur (reader (emplace k x st2)) = cur (reader st) \<and>
        cur (reader (emplace k x st2)) + n \<le> cap (reader (emplace k x st2)) \<and>
        peek n (reader (emplace k x st2)) = peek n (reader st) \<and>
        bin (emplace k x st2) = bin (emplace k x st)"
      by (simp add: bin_emplace)
    with n(3) have "(\<exists>st2'. p (emplace k x st2) = Done w st2' \<and>
        reader st2' = advance n (reader (emplace k x st2)) \<and> bin st2' = bin st') \<or>
        (\<exists>st2'. p (emplace k x st2) = Failed st2')"
      by blast
    then show "(\<exists>st2'. p (emplace k x st2) = Done w st2' \<and>
                    reader st2' = advance n (reader st2) \<and> bin st2' = bin st') \<or>
                 (\<exists>st2'. p (emplace k x st2) = Failed st2')"
      by simp
  qed (use n in simp_all)
qed

lemma stable_read_linked: "stable f (read_linked tbl hasLinks)"
  unfolding read_linked_def [abs_def]
  apply (rule stable_then_do)
   apply (rule stable_frames)
   apply (intro frames_if frames_then_do frames_intros frames_read_linked_loop)
  apply (rule stable_emplace)
  done

lemma stable_read_entries: "stable fuel (read_entries tbl fuel)"
  unfolding read_entries_def [abs_def]
  apply (rule stable_then_do [OF stable_frames [OF frames_assert_read [OF reads_read]]])
  apply (rule stable_then_do [OF stable_frames [OF frames_assert_read [OF reads_read_vector]]])
  apply (rule stable_then_do [OF stable_frames [OF frames_read_entries_loop]])
  apply (rule stable_emplace)
  done

lemma stable_read_sections: "stable fuel (read_sections tbl fuel)"
proof -
  have tail: "stable fuel
     (\<lambda>st. then_do (assert_call ''read_linked(version >= 2)'' (read_linked tbl h) st) (\<lambda>_ st.
     then_do (assert_call ''read_entries()'' (read_entries tbl fuel) st) (\<lambda>_ st.
     then_do (assert_cond ''reader.cur_ == reader.cap_''
                (cur (reader st) = cap (reader st)) st) (\<lambda>_ st.
     Done () st))))" for h
    apply (rule stable_then_do [OF stable_assert_call [OF stable_read_linked]])
    apply (rule stable_then_do [OF stable_assert_call [OF stable_read_entries]])
    apply (rule stable_then_do [OF stable_cond])
    apply (rule stable_Done)
    done
  have version: "stable fuel
     (\<lambda>st. then_do (assert_call ''read_linked(version >= 2)'' (read_linked tbl h)
                (emplace ''version'' v st)) (\<lambda>_ st.
     then_do (assert_call ''read_entries()'' (read_entries tbl fuel) st) (\<lambda>_ st.
     then_do (assert_cond ''reader.cur_ == reader.cap_''
                (cur (reader st) = cap (reader st)) st) (\<lambda>_ st.
     Done () st))))" for h v
    using tail [of h] by (rule stable_after_emplace)
  have header: "stable fuel
     (\<lambda>st. if magic = chars ''PTCH'' then
          then_do (assert_read ''reader.read(unk)'' (read (0::64 word)) st) (\<lambda>unk st.
          then_do (assert_read ''reader.read(magic)'' (read_array 4 magic) st) (\<lambda>magic st.
          Done magic (emplace ''type'' (String (chars ''PTCH'')) st)))
        else Done magic (emplace ''type'' (String (chars ''PROP'')) st))" for magic
    apply (rule stable_if)
     apply (rule stable_then_do [OF stable_frames [OF frames_assert_read [OF reads_read]]])
     apply (rule stable_then_do [OF stable_frames [OF frames_assert_read [OF reads_read_array]]])
     apply (rule stable_emplace)
    apply (rule stable_emplace)
    done
  show ?thesis
    unfolding read_sections_def [abs_def] Let_def
    apply (rule stable_then_do [OF stable_frames [OF frames_assert_read [OF reads_read_array]]])
    apply (rule stable_then_do [OF header])
    apply (rule stable_then_do [OF stable_cond])
    apply (rule stable_then_do [OF stable_frames [OF frames_assert_read [OF reads_read]]])
    apply (rule version)
    done
qed

lemma refines_refl: "refines p p"
  by (simp add: refines_def)

lemma refinesD: "refines p q \<Longrightarrow> p st \<noteq> OutOfFuel \<Longrightarrow> q st = p st"
  unfolding refines_def by (drule spec [of _ st]) simp

lemma refines_trans:
  assumes "refines p q" "refines q r"
  shows "refines p r"
  unfolding refines_def
proof
  fix st
  show "p st = OutOfFuel \<or> r st = p st"
  proof (cases "p st = OutOfFuel")
    case False
    with assms(1) have q: "q st = p st" by (rule refinesD)
    with False have "q st \<noteq> OutOfFuel" by simp
    with assms(2) have "r st = q st" by (rule refinesD)
    with q show ?thesis by simp
  qed simp
qed

lemma refines_then_do:
  assumes p: "refines p q" and k: "\<And>v. refines (k v) (k' v)"
  shows "refines (\<lambda>st. then_do (p st) k) (\<lambda>st. then_do (q st) k')"
  unfolding refines_def
proof
  fix st
  show "then_do (p st) k = OutOfFuel \<or> then_do (q st) k' = then_do (p st) k"
  proof (cases "p st")
    case OutOfFuel
    then show ?thesis by simp
  next
    case (Failed st')
    with refinesD [OF p, of st] show ?thesis by simp
  next
    case (Done v st')
    with refinesD [OF p, of st] have q: "q st = Done v st'" by simp
    from k [of v] have "k v st' = OutOfFuel \<or> k' v st' = k v st'"
      unfolding refines_def by blast
    with Done q show ?thesis by auto
  qed
qed

lemma refines_assert_call:
  assumes "refines p q"
  shows "refines (assert_call msg p) (assert_call msg q)"
  unfolding refines_def
proof
  fix st
  from assms have "p st = OutOfFuel \<or> q st = p st"
    unfolding refines_def by blast
  then show "assert_call msg p st = OutOfFuel \<or> assert_call msg q st = assert_call msg p st"
    by (auto simp: assert_call_def)
qed

lemma refines_if:
  "refines p q \<Longrightarrow> refines p' q' \<Longrightarrow>
   refines (\<lambda>st. if b then p st else p' st) (\<lambda>st. if b then q st else q' st)"
  by (cases b) simp_all

lemma refines_let_position:
  assumes "\<And>pos. refines (G pos) (G' pos)"
  shows "refines (\<lambda>st. let pos = position (reader st) in G pos st)
           (\<lambda>st. let pos = position (reader st) in G' pos st)"
  using assms unfolding refines_def Let_def by blast

lemma refines_after:
  assumes "refines p q"
  shows "refines (\<lambda>st. p (g st)) (\<lambda>st. q (g st))"
  using assms unfolding refines_def by blast

lemma refines_read_fields:
  assumes rv: "\<And>t. refines (rv t) (rv' t)"
  shows "refines (read_fields rv tbl n items) (read_fields rv' tbl n items)"
proof (induction n arbitrary: items)
  case 0
  have "read_fields rv tbl 0 items = read_fields rv' tbl 0 items" by (rule ext) simp
  then show ?case by (simp add: refines_refl)
next
  case (Suc n)
  have "read_fields rv tbl (Suc n) items = (\<lambda>st.
     then_do (assert_read ''reader.read(name)'' (read_FNV1a 0) st) (\<lambda>name st.
     then_do (assert_read ''reader.read(type)'' (read_Type tbl 0) st) (\<lambda>type st.
     then_do (assert_call ''read_value_of(item, type)'' (rv type) st) (\<lambda>item st.
     read_fields rv tbl n (items @ [(name, item)]) st))))" for rv
    by (rule ext) simp
  then show ?case
    using rv Suc.IH
    by (simp only:) (intro refines_then_do refines_refl refines_assert_call)
qed

lemma refines_read_items:
  assumes rv: "\<And>t. refines (rv t) (rv' t)"
  shows "refines (read_items rv valueType n items) (read_items rv' valueType n items)"
proof (induction n arbitrary: items)
  case 0
  have "read_items rv valueType 0 items = read_items rv' valueType 0 items" by (rule ext) simp
  then show ?case by (simp add: refines_refl)
next
  case (Suc n)
  have "read_items rv valueType (Suc n) items = (\<lambda>st.
     then_do (assert_call ''read_value_of(item, value.valueType)'' (rv valueType) st) (\<lambda>item st.
     read_items rv valueType n (items @ [item]) st))" for rv
    by (rule ext) simp
  then show ?case
    using rv Suc.IH
    by (simp only:) (intro refines_then_do refines_refl refines_assert_call)
qed

lemma refines_read_pairs:
  assumes rv: "\<And>t. refines (rv t) (rv' t)"
  shows "refines (read_pairs rv keyType valueType n items) (read_pairs rv' keyType valueType n items)"
proof (induction n arbitrary: items)
  case 0
  have "read_pairs rv keyType valueType 0 items = read_pairs rv' keyType valueType 0 items"
    by (rule ext) simp
  then show ?case by (simp add: refines_refl)
next
  case (Suc n)
  have "read_pairs rv keyType valueType (Suc n) items = (\<lambda>st.
     then_do (assert_call ''read_value_of(key, value.keyType)'' (rv keyType) st) (\<lambda>key st.
     then_do (assert_call ''read_value_of(item, value.valueType)'' (rv valueType) st) (\<lambda>item st.
     read_pairs rv keyType valueType n (items @ [(key, item)]) st)))" for rv
    by (rule ext) simp
  then show ?case
    using rv Suc.IH
    by (simp only:) (intro refines_then_do refines_refl refines_assert_call)
qed

lemmas refines_intros = refines_refl refines_then_do refines_assert_call refines_if
  refines_let_position refines_read_fields refines_read_items refines_read_pairs

lemma refines_read_value_visit:
  assumes rv: "\<And>t. refines (rv t) (rv' t)"
  shows "refines (read_value_visit tbl rv v) (read_value_visit tbl rv' v)"
  unfolding read_value_visit_def [abs_def] read_value_visit_Embed_def [abs_def]
    read_value_visit_Pointer_def [abs_def] read_value_visit_Option_def [abs_def]
    read_value_visit_List_def [abs_def] read_value_visit_List2_def [abs_def]
    read_value_visit_Map_def [abs_def]
  by (cases v; simp only: Value.case; intro refines_intros rv)

lemma refines_read_value_of_Suc:
  "refines (read_value_of tbl fuel type) (read_value_of tbl (Suc fuel) type)"
proof (induction fuel arbitrary: type)
  case 0
  have "read_value_of tbl 0 type = (\<lambda>st. OutOfFuel)" by (rule ext) simp
  then show ?case by (simp add: refines_def)
next
  case (Suc fuel)
  have "read_value_of tbl (Suc fuel) type =
      read_value_visit tbl (read_value_of tbl fuel) (from_type tbl type)" for fuel
    by (rule ext) simp
  then show ?case using Suc.IH by (simp only: refines_read_value_visit)
qed

lemma refines_read_value_of:
  "fuel \<le> fuel' \<Longrightarrow> refines (read_value_of tbl fuel type) (read_value_of tbl fuel' type)"
proof (induction fuel' arbitrary: type)
  case 0
  then show ?case by (simp add: refines_refl)
next
  case (Suc fuel')
  show ?case
  proof (cases "fuel = Suc fuel'")
    case True
    then show ?thesis by (simp add: refines_refl)
  next
    case False
    with Suc.prems have "fuel \<le> fuel'" by simp
    then have "refines (read_value_of tbl fuel type) (read_value_of tbl fuel' type)"
      by (rule Suc.IH)
    then show ?thesis
      using refines_read_value_of_Suc by (rule refines_trans)
  qed
qed

lemma refines_read_entry:
  "fuel \<le> fuel' \<Longrightarrow> refines (read_entry tbl fuel items) (read_entry tbl fuel' items)"
  unfolding read_entry_def [abs_def]
  by (intro refines_intros refines_read_value_of)

lemma refines_read_entries_loop:
  assumes "fuel \<le> fuel'"
  shows "refines (read_entries_loop tbl fuel hashes items) (read_entries_loop tbl fuel' hashes items)"
proof (induction hashes arbitrary: items)
  case Nil
  have "read_entries_loop tbl fuel [] items = read_entries_loop tbl fuel' [] items"
    by (rule ext) simp
  then show ?case by (simp add: refines_refl)
next
  case (Cons entryNameHash rest)
  have "read_entries_loop tbl fuel (entryNameHash # rest) items = (\<lambda>st.
     then_do (assert_call ''read_entry(entryKeyHash, entry)'' (read_entry tbl fuel []) st)
       (\<lambda>e st.
     read_entries_loop tbl fuel rest
       (items @ [(Hash (fst e), Embed entryNameHash (snd e))]) st))" for fuel
    by (rule ext) (simp add: case_prod_unfold)
  then show ?case
    using Cons.IH refines_read_entry [OF assms]
    by (simp only:) (intro refines_then_do refines_assert_call)
qed

lemma refines_read_entries:
  "fuel \<le> fuel' \<Longrightarrow> refines (read_entries tbl fuel) (read_entries tbl fuel')"
  unfolding read_entries_def [abs_def]
  by (intro refines_intros refines_read_entries_loop)

lemma refines_read_sections:
  "fuel \<le> fuel' \<Longrightarrow> refines (read_sections tbl fuel) (read_sections tbl fuel')"
  unfolding read_sections_def [abs_def] Let_def
  by (intro refines_then_do refines_refl refines_assert_call refines_read_entries)

lemma peek_prefix:
  assumes "m \<le> n"
  shows "peek m \<lparr>bytes = take n data, cur = 0\<rparr> = peek m \<lparr>bytes = data, cur = 0\<rparr>"
  using assms by (simp add: peek_def min_def)

lemma read_sections_returns:
  assumes "cur (reader st) \<le> cap (reader st)" "cap (reader st) - cur (reader st) < fuel"
  shows "read_sections tbl fuel st \<noteq> OutOfFuel"
proof
  assume "read_sections tbl fuel st = OutOfFuel"
  from stable_OutOfFuelD [OF stable_read_sections assms(1) this] assms(2)
  show False by simp
qed

lemma read_binary_returns: "read_binary tbl this data \<noteq> None"
proof -
  let ?st = "\<lparr>bin = this\<lparr>sections := Map.empty\<rparr>, reader = \<lparr>bytes = data, cur = 0\<rparr>, error = []\<rparr>"
  have "read_sections tbl (Suc (length data)) ?st \<noteq> OutOfFuel"
    by (rule read_sections_returns) (simp_all add: cap_def)
  then show ?thesis
    by (auto simp: read_binary_def process_def assert_call_def fail_msg_def Let_def
        split: outcome.splits)
qed

lemma read_binary_Inr_iff:
  "read_binary tbl this data = Some (Inr (), b) \<longleftrightarrow>
     (\<exists>st'. read_sections tbl (Suc (length data))
        \<lparr>bin = this\<lparr>sections := Map.empty\<rparr>, reader = \<lparr>bytes = data, cur = 0\<rparr>, error = []\<rparr> =
          Done () st' \<and> b = bin st')"
  by (auto simp: read_binary_def process_def assert_call_def fail_msg_def Let_def
      split: outcome.splits)

lemma truncated_not_Done:
  assumes ok: "read_sections tbl (Suc (length data))
        \<lparr>bin = bn, reader = \<lparr>bytes = data, cur = 0\<rparr>, error = []\<rparr> = Done () stD"
    and empty: "sections bn = Map.empty"
    and n: "n < length data"
  shows "read_sections tbl (Suc (length (take n data)))
        \<lparr>bin = bn, reader = \<lparr>bytes = take n data, cur = 0\<rparr>, error = []\<rparr> \<noteq> Done () stP"
proof
  let ?D = "\<lparr>bin = bn, reader = \<lparr>bytes = data, cur = 0\<rparr>, error = []\<rparr>"
  let ?P = "\<lparr>bin = bn, reader = \<lparr>bytes = take n data, cur = 0\<rparr>, error = []\<rparr>"
  assume a: "read_sections tbl (Suc (length (take n data))) ?P = Done () stP"
  have "refines (read_sections tbl (Suc (length (take n data))))
      (read_sections tbl (Suc (length data)))"
    by (rule refines_read_sections) simp
  from refinesD [OF this, of ?P] a
  have P: "read_sections tbl (Suc (length data)) ?P = Done () stP"
    by simp
  have leP: "cur (reader ?P) \<le> cap (reader ?P)" by simp
  from stable_DoneD [OF stable_read_sections leP P] obtain k where
    k: "reader stP = advance k (reader ?P)" "cur (reader ?P) + k \<le> cap (reader ?P)"
    and loc: "\<forall>st2. cur (reader st2) = cur (reader ?P) \<and>
             cur (reader st2) + k \<le> cap (reader st2) \<and>
             peek k (reader st2) = peek k (reader ?P) \<and> bin st2 = bin ?P \<longrightarrow>
             (\<exists>st2'. read_sections tbl (Suc (length data)) st2 = Done () st2' \<and>
                reader st2' = advance k (reader st2) \<and> bin st2' = bin stP) \<or>
             (\<exists>st2'. read_sections tbl (Suc (length data)) st2 = Failed st2')"
    by blast
  from k(2) n have kn: "k \<le> n" by (simp add: cap_def)
  with n have "cur (reader ?D) = cur (reader ?P) \<and> cur (reader ?D) + k \<le> cap (reader ?D) \<and>
      peek k (reader ?D) = peek k (reader ?P) \<and> bin ?D = bin ?P"
    by (simp add: cap_def peek_prefix)
  with loc have "(\<exists>st2'. read_sections tbl (Suc (length data)) ?D = Done () st2' \<and>
                reader st2' = advance k (reader ?D) \<and> bin st2' = bin stP) \<or>
             (\<exists>st2'. read_sections tbl (Suc (length data)) ?D = Failed st2')"
    by blast
  with ok have "reader stD = advance k (reader ?D)" by auto
  then have "cur (reader stD) = k" "cap (reader stD) = length data"
    by (simp_all add: cap_def)
  moreover have "cur (reader stD) = cap (reader stD)"
    using read_sections_Done [OF ok] empty by simp (elim exE conjE)
  ultimately show False using kn n by simp
qed

lemma truncated_read_binary:
  assumes ok: "read_binary tbl this data = Some (Inr (), b)" and n: "n < length data"
  shows "\<exists>msg b'. read_binary tbl this' (take n data) = Some (Inl msg, b')"
proof -
  let ?bn = "this'\<lparr>sections := Map.empty\<rparr>"
  from ok have "read_binary tbl this' data = Some (Inr (), b)"
    by (simp add: read_binary_this [of tbl this' data this])
  then obtain stD where D: "read_sections tbl (Suc (length data))
        \<lparr>bin = ?bn, reader = \<lparr>bytes = data, cur = 0\<rparr>, error = []\<rparr> = Done () stD"
    by (auto simp: read_binary_Inr_iff)
  have "read_binary tbl this' (take n data) \<noteq> None"
    by (rule read_binary_returns)
  then obtain r b' where r: "read_binary tbl this' (take n data) = Some (r, b')"
    by auto
  show ?thesis
  proof (cases r)
    case (Inl msg)
    with r show ?thesis by blast
  next
    case (Inr u)
    with r obtain stP where "read_sections tbl (Suc (length (take n data)))
        \<lparr>bin = ?bn, reader = \<lparr>bytes = take n data, cur = 0\<rparr>, error = []\<rparr> = Done () stP"
      by (auto simp: read_binary_Inr_iff)
    with truncated_not_Done [OF D _ n] show ?thesis by simp
  qed
qed

lemma reads_within:
  assumes "reads m rd" "cur r \<le> cap r"
  shows "within r (snd (snd (rd r)))"
proof -
  obtain ok v r' where r: "rd r = (ok, v, r')" by (cases "rd r") auto
  from readsD [OF assms r] r show ?thesis by (simp add: within_def)
qed

lemma process_within:
  assumes le: "cur (reader st) \<le> cap (reader st)"
    and res: "process tbl fuel st = Failed st' \<or> process tbl fuel st = Done u st'"
  shows "within (reader st) (reader st')"
proof -
  let ?st = "st\<lparr>bin := (bin st)\<lparr>sections := Map.empty\<rparr>\<rparr>"
  have le': "cur (reader ?st) \<le> cap (reader ?st)" using le by simp
  from res consider st1 where "read_sections tbl fuel ?st = Failed st1" "reader st' = reader st1"
    | "read_sections tbl fuel ?st = Done () st'"
    by (auto simp: process_def Let_def then_do_Failed_iff then_do_Done_iff
        assert_call_Failed_iff assert_call_Done_iff)
  then show ?thesis
  proof cases
    case 1
    from stable_FailedD [OF stable_read_sections le' 1(1)] 1(2) show ?thesis by simp
  next
    case 2
    from stable_DoneD [OF stable_read_sections le' 2] obtain k where
      "reader st' = advance k (reader ?st)" "cur (reader ?st) + k \<le> cap (reader ?st)"
      by blast
    then show ?thesis by simp
  qed
qed

subsection \<open>A modified byte length\<close>






lemma list4:
  assumes "length bs = 4"
  obtains a b c d where "bs = [a, b, c, d]"
proof -
  from assms obtain a r1 where 1: "bs = a # r1" "length r1 = 3" by (cases bs) simp_all
  then obtain b r2 where 2: "r1 = b # r2" "length r2 = 2" by (cases r1) simp_all
  then obtain c r3 where 3: "r2 = c # r3" "length r3 = 1" by (cases r2) simp_all
  then obtain d where 4: "r3 = [d]" by (cases r3) simp_all
  from 1 2 3 4 that show ?thesis by simp
qed


lemma reader_poke [simp]:
  "cur (reader (poke i x st)) = cur (reader st)"
  "cap (reader (poke i x st)) = cap (reader st)"
  "bin (poke i x st) = bin st"
  "error (poke i x st) = error st"
  "bytes (reader (poke i x st)) = (bytes (reader st))[i := x]"
  "position (reader (poke i x st)) = position (reader st)"
  by (simp_all add: poke_def cap_def position_def)




lemma length_peek: "cur r + n \<le> cap r \<Longrightarrow> length (peek n r) = n"
  by (simp add: peek_def cap_def)


lemma then_do_assoc:
  "then_do (then_do m k) k' = then_do m (\<lambda>v st. then_do (k v st) k')"
  by (cases m) simp_all











subsection \<open>Where a decode stops\<close>

lemma then_emplace_Failed:
  assumes p: "frames f p" and le: "cur (reader st) \<le> cap (reader st)"
    and F: "then_do (p st) (\<lambda>v st. Done u (emplace k (C v) st)) = Failed st'"
  shows "bin st' = bin st"
proof -
  from F have "p st = Failed st'"
    by (simp add: then_do_Failed_iff)
  from frames_FailedD [OF p le this] show ?thesis by simp
qed

lemma read_linked_Failed:
  assumes le: "cur (reader st) \<le> cap (reader st)"
    and F: "read_linked tbl hasLinks st = Failed st'"
  shows "bin st' = bin st"
proof -
  have fr: "frames 0 (\<lambda>st. if hasLinks then
          then_do (assert_read ''reader.read(linkedFilesCount)'' (read (0::32 word)) st)
            (\<lambda>linkedFilesCount st.
          read_linked_loop (unat linkedFilesCount) [] st)
        else Done [] st)"
    by (intro frames_if frames_then_do frames_intros frames_read_linked_loop)
  show ?thesis
    by (rule then_emplace_Failed [OF fr le, where u = "()" and k = "''linked''"
          and C = "List (STRING tbl)"])
      (use F in \<open>simp add: read_linked_def\<close>)
qed

lemma read_entries_Failed:
  assumes le: "cur (reader st) \<le> cap (reader st)"
    and F: "read_entries tbl fuel st = Failed st'"
  shows "bin st' = bin st"
proof -
  have fr: "frames fuel (\<lambda>st.
     then_do (assert_read ''reader.read(entryCount)'' (read (0::32 word)) st) (\<lambda>entryCount st.
     then_do (assert_read ''reader.read(entryNameHashes, entryCount)''
                (read_vector ([]::32 word list) (unat entryCount)) st) (\<lambda>entryNameHashes st.
     read_entries_loop tbl fuel entryNameHashes [] st)))"
    by (intro frames_then_do frames_intros frames_read_entries_loop)
  show ?thesis
    by (rule then_emplace_Failed [OF fr le, where u = "()" and k = "''entries''"
          and C = "Map_v (HASH tbl) (EMBED tbl)"])
      (use F in \<open>simp add: read_entries_def then_do_assoc\<close>)
qed

lemma linked_entries_Failed:
  assumes F: "then_do (assert_call ''read_linked(version >= 2)'' (read_linked tbl h) st) (\<lambda>_ st.
     then_do (assert_call ''read_entries()'' (read_entries tbl fuel) st) (\<lambda>_ st.
     then_do (assert_cond ''reader.cur_ == reader.cap_''
                (cur (reader st) = cap (reader st)) st) (\<lambda>_ st.
     Done () st))) = Failed st'"
    and dom: "dom (sections (bin st)) = {''type'', ''version''}"
    and le: "cur (reader st) \<le> cap (reader st)"
  shows "\<exists>errs c p. error st' = errs @ [(c, p)] \<and>
     (c = ''read_linked(version >= 2)'' \<and> sections (bin st') = sections (bin st) \<or>
      c = ''read_entries()'' \<and>
        (\<exists>linked. sections (bin st') = (sections (bin st))(''linked'' \<mapsto> List (STRING tbl) linked) \<and>
           (\<forall>v\<in>set linked. \<exists>s. v = String s) \<and> (\<not> h \<longrightarrow> linked = [])) \<or>
      c = ''reader.cur_ == reader.cap_'' \<and> p < cap (reader st) \<and>
        (\<exists>linked entries.
           sections (bin st') =
             (sections (bin st))
               (''linked'' \<mapsto> List (STRING tbl) linked,
                ''entries'' \<mapsto> Map_v (HASH tbl) (EMBED tbl) entries) \<and>
           (\<forall>v\<in>set linked. \<exists>s. v = String s) \<and> (\<not> h \<longrightarrow> linked = []) \<and>
           (\<forall>kv\<in>set entries. \<exists>h n fs. kv = (Hash h, Embed n fs) \<and>
              (value_initialised tbl \<longrightarrow> (\<forall>f\<in>set fs. good tbl (snd f))))))"
proof -
  let ?P = "\<lambda>errs c p. error st' = errs @ [(c, p)] \<and>
     (c = ''read_linked(version >= 2)'' \<and> sections (bin st') = sections (bin st) \<or>
      c = ''read_entries()'' \<and>
        (\<exists>linked. sections (bin st') = (sections (bin st))(''linked'' \<mapsto> List (STRING tbl) linked) \<and>
           (\<forall>v\<in>set linked. \<exists>s. v = String s) \<and> (\<not> h \<longrightarrow> linked = [])) \<or>
      c = ''reader.cur_ == reader.cap_'' \<and> p < cap (reader st) \<and>
        (\<exists>linked entries.
           sections (bin st') =
             (sections (bin st))
               (''linked'' \<mapsto> List (STRING tbl) linked,
                ''entries'' \<mapsto> Map_v (HASH tbl) (EMBED tbl) entries) \<and>
           (\<forall>v\<in>set linked. \<exists>s. v = String s) \<and> (\<not> h \<longrightarrow> linked = []) \<and>
           (\<forall>kv\<in>set entries. \<exists>h n fs. kv = (Hash h, Embed n fs) \<and>
              (value_initialised tbl \<longrightarrow> (\<forall>f\<in>set fs. good tbl (snd f))))))"
  from F [THEN then_do_Failed_iff [THEN iffD1]] show ?thesis
  proof (elim disjE exE conjE)
    assume "assert_call ''read_linked(version >= 2)'' (read_linked tbl h) st = Failed st'"
    then obtain st1 where f: "read_linked tbl h st = Failed st1"
      and st': "st' = st1\<lparr>error := error st1 @ [(''read_linked(version >= 2)'', cur (reader st))]\<rparr>"
      unfolding assert_call_Failed_iff by (elim exE conjE)
    from read_linked_Failed [OF le f] st'
    have "?P (error st1) ''read_linked(version >= 2)'' (cur (reader st))"
      by simp
    then show ?thesis by (intro exI)
  next
    fix u st1
    assume "assert_call ''read_linked(version >= 2)'' (read_linked tbl h) st = Done u st1"
    then have l: "read_linked tbl h st = Done () st1"
      by (simp add: assert_call_Done_iff)
    from read_linked_Done [OF le l] obtain n linked where
      st1: "st1 = emplace ''linked'' (List (STRING tbl) linked) (st\<lparr>reader := advance n (reader st)\<rparr>)"
      and n: "cur (reader st) + n \<le> cap (reader st)"
      and ls: "\<forall>v\<in>set linked. \<exists>s. v = String s" "\<not> h \<longrightarrow> linked = []"
      by (elim exE conjE)
    have s1: "sections (bin st1) = (sections (bin st))(''linked'' \<mapsto> List (STRING tbl) linked)"
      using dom by (simp add: st1 sections_emplace)
    have le1: "cur (reader st1) \<le> cap (reader st1)"
      using n by (simp add: st1)
    have cap1: "cap (reader st1) = cap (reader st)"
      by (simp add: st1)
    assume "then_do (assert_call ''read_entries()'' (read_entries tbl fuel) st1) (\<lambda>_ st.
        then_do (assert_cond ''reader.cur_ == reader.cap_''
                (cur (reader st) = cap (reader st)) st) (\<lambda>_ st. Done () st)) = Failed st'"
    from this [THEN then_do_Failed_iff [THEN iffD1]] show ?thesis
    proof (elim disjE exE conjE)
      assume "assert_call ''read_entries()'' (read_entries tbl fuel) st1 = Failed st'"
      then obtain st2 where f: "read_entries tbl fuel st1 = Failed st2"
        and st': "st' = st2\<lparr>error := error st2 @ [(''read_entries()'', cur (reader st1))]\<rparr>"
        unfolding assert_call_Failed_iff by (elim exE conjE)
      from read_entries_Failed [OF le1 f] st' s1 ls
      have "?P (error st2) ''read_entries()'' (cur (reader st1))"
        by auto
      then show ?thesis by (intro exI)
    next
      fix u2 st2
      assume "assert_call ''read_entries()'' (read_entries tbl fuel) st1 = Done u2 st2"
      then have e: "read_entries tbl fuel st1 = Done () st2"
        by (simp add: assert_call_Done_iff)
      from read_entries_Done [OF le1 e] obtain m entries where
        st2: "st2 = emplace ''entries'' (Map_v (HASH tbl) (EMBED tbl) entries)
                (st1\<lparr>reader := advance m (reader st1)\<rparr>)"
        and m: "cur (reader st1) + m \<le> cap (reader st1)"
        and es: "\<forall>kv\<in>set entries. \<exists>h n fs. kv = (Hash h, Embed n fs) \<and>
              (value_initialised tbl \<longrightarrow> (\<forall>f\<in>set fs. good tbl (snd f)))"
        by (elim exE conjE)
      have s2: "sections (bin st2) = (sections (bin st))
               (''linked'' \<mapsto> List (STRING tbl) linked,
                ''entries'' \<mapsto> Map_v (HASH tbl) (EMBED tbl) entries)"
        using dom by (simp add: st2 sections_emplace s1)
      have le2: "cur (reader st2) \<le> cap (reader st)"
        using m by (simp add: st2 cap1)
      assume "then_do (assert_cond ''reader.cur_ == reader.cap_''
                (cur (reader st2) = cap (reader st2)) st2) (\<lambda>_ st. Done () st) = Failed st'"
      then have c: "cur (reader st2) \<noteq> cap (reader st2)"
        and st': "st' = st2\<lparr>error := error st2 @ [(''reader.cur_ == reader.cap_'', cur (reader st2))]\<rparr>"
        by (simp_all add: then_do_Failed_iff assert_cond_Failed_iff)
      have "cap (reader st2) = cap (reader st)" by (simp add: st2 cap1)
      with c le2 have lt: "cur (reader st2) < cap (reader st)" by simp
      have "?P (error st2) ''reader.cur_ == reader.cap_'' (cur (reader st2))"
        using st' s2 ls es lt by auto
      then show ?thesis by (intro exI)
    qed
  qed
qed

lemma le_word_byte: "(le_word [b] :: 8 word) = b"
  by simp

lemma read_array_bytes:
  assumes "cur r + 4 \<le> cap r"
  shows "read_array 4 (v :: 8 word list) r = (True, peek 4 r, advance 4 r)"
proof -
  have "length (peek 4 r) = 4"
    using assms by (rule length_peek)
  then obtain a b c d where p: "peek 4 r = [a, b, c, d]"
    by (rule list4)
  show ?thesis
    using assms by (simp add: read_array_def sizeof_def p chunks_numeral)
qed

lemma read_array_bytes_iff:
  "read_array 4 (v :: 8 word list) r = (True, m, r') \<longleftrightarrow>
     cur r + 4 \<le> cap r \<and> m = peek 4 r \<and> r' = advance 4 r"
proof (cases "cur r + 4 \<le> cap r")
  case True
  then show ?thesis by (auto simp: read_array_bytes)
next
  case False
  then show ?thesis by (simp add: read_array_def sizeof_def)
qed

lemma after_type_Failed:
  assumes F: "then_do (assert_cond ''magic == std::array{ 'P', 'R', 'O', 'P' }''
                (magic = chars ''PROP'') st) (\<lambda>_ st.
     then_do (assert_read ''reader.read(version)'' (read (0::32 word)) st) (\<lambda>version st.
     let st = emplace ''version'' (U32 version) st in
     then_do (assert_call ''read_linked(version >= 2)'' (read_linked tbl (version \<ge> 2)) st) (\<lambda>_ st.
     then_do (assert_call ''read_entries()'' (read_entries tbl fuel) st) (\<lambda>_ st.
     then_do (assert_cond ''reader.cur_ == reader.cap_''
                (cur (reader st) = cap (reader st)) st) (\<lambda>_ st.
     Done () st))))) = Failed st'"
    and s: "sections (bin st) = [''type'' \<mapsto> ty]"
    and le: "cur (reader st) \<le> cap (reader st)"
  shows "\<exists>errs c p. error st' = errs @ [(c, p)] \<and>
     ((c = ''magic == std::array{ 'P', 'R', 'O', 'P' }'' \<or> c = ''reader.read(version)'') \<and>
        sections (bin st') = [''type'' \<mapsto> ty] \<or>
      c = ''read_linked(version >= 2)'' \<and>
        sections (bin st') =
          [''type'' \<mapsto> ty, ''version'' \<mapsto> U32 (u32_at (cur (reader st)) (reader st))] \<or>
      c = ''read_entries()'' \<and>
        (\<exists>linked. sections (bin st') =
            [''type'' \<mapsto> ty, ''version'' \<mapsto> U32 (u32_at (cur (reader st)) (reader st)),
             ''linked'' \<mapsto> List (STRING tbl) linked] \<and>
           (\<forall>v\<in>set linked. \<exists>s. v = String s) \<and>
           (u32_at (cur (reader st)) (reader st) < 2 \<longrightarrow> linked = [])) \<or>
      c = ''reader.cur_ == reader.cap_'' \<and> p < cap (reader st) \<and>
        (\<exists>linked entries.
           sections (bin st') =
             [''type'' \<mapsto> ty, ''version'' \<mapsto> U32 (u32_at (cur (reader st)) (reader st)),
              ''linked'' \<mapsto> List (STRING tbl) linked,
              ''entries'' \<mapsto> Map_v (HASH tbl) (EMBED tbl) entries] \<and>
           (\<forall>v\<in>set linked. \<exists>s. v = String s) \<and>
           (u32_at (cur (reader st)) (reader st) < 2 \<longrightarrow> linked = []) \<and>
           (\<forall>kv\<in>set entries. \<exists>h n fs. kv = (Hash h, Embed n fs) \<and>
              (value_initialised tbl \<longrightarrow> (\<forall>f\<in>set fs. good tbl (snd f))))))"
    (is "\<exists>errs c p. ?P errs c p")
proof -
  let ?ver = "u32_at (cur (reader st)) (reader st)"
  from F [THEN then_do_Failed_iff [THEN iffD1]] show ?thesis
  proof (elim disjE exE conjE)
    assume "assert_cond ''magic == std::array{ 'P', 'R', 'O', 'P' }''
              (magic = chars ''PROP'') st = Failed st'"
    then have "st' = st\<lparr>error := error st @
        [(''magic == std::array{ 'P', 'R', 'O', 'P' }'', cur (reader st))]\<rparr>"
      by (simp add: assert_cond_Failed_iff)
    then have "?P (error st) ''magic == std::array{ 'P', 'R', 'O', 'P' }'' (cur (reader st))"
      using s by simp
    then show ?thesis by (intro exI)
  next
    fix u st0
    assume "assert_cond ''magic == std::array{ 'P', 'R', 'O', 'P' }''
              (magic = chars ''PROP'') st = Done u st0"
    then have st0: "st0 = st" by (simp add: assert_cond_Done_iff)
    assume "then_do (assert_read ''reader.read(version)'' (read (0::32 word)) st0) (\<lambda>version st.
     let st = emplace ''version'' (U32 version) st in
     then_do (assert_call ''read_linked(version >= 2)'' (read_linked tbl (version \<ge> 2)) st) (\<lambda>_ st.
     then_do (assert_call ''read_entries()'' (read_entries tbl fuel) st) (\<lambda>_ st.
     then_do (assert_cond ''reader.cur_ == reader.cap_''
                (cur (reader st) = cap (reader st)) st) (\<lambda>_ st.
     Done () st)))) = Failed st'"
    from this [unfolded st0, THEN then_do_Failed_iff [THEN iffD1]] show ?thesis
    proof (elim disjE exE conjE)
      assume "assert_read ''reader.read(version)'' (read (0::32 word)) st = Failed st'"
      then obtain v r where "read (0::32 word) (reader st) = (False, v, r)"
        and st': "st' = st\<lparr>reader := r, error := error st @ [(''reader.read(version)'', cur (reader st))]\<rparr>"
        unfolding assert_read_Failed_iff by (elim exE conjE)
      then have "?P (error st) ''reader.read(version)'' (cur (reader st))"
        using s by simp
      then show ?thesis by (intro exI)
    next
      fix version st1
      assume "assert_read ''reader.read(version)'' (read (0::32 word)) st = Done version st1"
      then have ver: "version = ?ver" and st1: "st1 = st\<lparr>reader := advance 4 (reader st)\<rparr>"
        and le4: "cur (reader st) + 4 \<le> cap (reader st)"
        by (simp_all add: assert_read_Done_iff read_True_iff sizeof_def u32_at_def peek_def)
      let ?st2 = "emplace ''version'' (U32 version) st1"
      have s2: "sections (bin ?st2) = [''type'' \<mapsto> ty, ''version'' \<mapsto> U32 ?ver]"
        using s by (simp add: sections_emplace st1 ver)
      then have dom2: "dom (sections (bin ?st2)) = {''type'', ''version''}"
        by auto
      have le2: "cur (reader ?st2) \<le> cap (reader ?st2)"
        using le4 by (simp add: st1)
      have cap2: "cap (reader ?st2) = cap (reader st)"
        by (simp add: st1)
      assume "(let st = emplace ''version'' (U32 version) st1 in
        then_do (assert_call ''read_linked(version >= 2)'' (read_linked tbl (version \<ge> 2)) st) (\<lambda>_ st.
        then_do (assert_call ''read_entries()'' (read_entries tbl fuel) st) (\<lambda>_ st.
        then_do (assert_cond ''reader.cur_ == reader.cap_''
                (cur (reader st) = cap (reader st)) st) (\<lambda>_ st.
        Done () st)))) = Failed st'"
      then have "then_do (assert_call ''read_linked(version >= 2)'' (read_linked tbl (version \<ge> 2)) ?st2) (\<lambda>_ st.
        then_do (assert_call ''read_entries()'' (read_entries tbl fuel) st) (\<lambda>_ st.
        then_do (assert_cond ''reader.cur_ == reader.cap_''
                (cur (reader st) = cap (reader st)) st) (\<lambda>_ st.
        Done () st))) = Failed st'"
        by (simp only: Let_def)
      from linked_entries_Failed [OF this dom2 le2] obtain errs c p where
        "error st' = errs @ [(c, p)]" and
        "c = ''read_linked(version >= 2)'' \<and> sections (bin st') = sections (bin ?st2) \<or>
         c = ''read_entries()'' \<and>
          (\<exists>linked. sections (bin st') = (sections (bin ?st2))(''linked'' \<mapsto> List (STRING tbl) linked) \<and>
           (\<forall>v\<in>set linked. \<exists>s. v = String s) \<and> (\<not> 2 \<le> version \<longrightarrow> linked = [])) \<or>
         c = ''reader.cur_ == reader.cap_'' \<and> p < cap (reader ?st2) \<and>
          (\<exists>linked entries.
           sections (bin st') =
             (sections (bin ?st2))
               (''linked'' \<mapsto> List (STRING tbl) linked,
                ''entries'' \<mapsto> Map_v (HASH tbl) (EMBED tbl) entries) \<and>
           (\<forall>v\<in>set linked. \<exists>s. v = String s) \<and> (\<not> 2 \<le> version \<longrightarrow> linked = []) \<and>
           (\<forall>kv\<in>set entries. \<exists>h n fs. kv = (Hash h, Embed n fs) \<and>
              (value_initialised tbl \<longrightarrow> (\<forall>f\<in>set fs. good tbl (snd f)))))"
        by (elim exE conjE)
      then have "?P errs c p"
        apply (simp only: s2 cap2)
        apply (simp only: ver not_le)
        apply (elim disjE conjE exE)
          apply (simp_all only: simp_thms)
        done
      then show ?thesis by (intro exI)
    qed
  qed
qed

lemma failed_at_early:
  assumes "error st' = errs @ [(c, p)]"
    and "ty = ''PROP'' \<and> off = 4 \<and> peek 4 (reader st) \<noteq> chars ''PTCH'' \<or>
         ty = ''PTCH'' \<and> off = 16 \<and> peek 4 (reader st) = chars ''PTCH''"
    and "c = ''reader.read(magic)'' \<or> c = ''reader.read(unk)''"
    and "sections (bin st') = Map.empty"
  shows "failed_at tbl st st' errs c p ty off"
  unfolding failed_at_def using assms by (simp only: simp_thms)

lemma failed_at_after:
  assumes T: "(\<lambda>magic st.
     then_do (assert_cond ''magic == std::array{ 'P', 'R', 'O', 'P' }''
                (magic = chars ''PROP'') st) (\<lambda>_ st.
     then_do (assert_read ''reader.read(version)'' (read (0::32 word)) st) (\<lambda>version st.
     let st = emplace ''version'' (U32 version) st in
     then_do (assert_call ''read_linked(version >= 2)'' (read_linked tbl (version \<ge> 2)) st) (\<lambda>_ st.
     then_do (assert_call ''read_entries()'' (read_entries tbl fuel) st) (\<lambda>_ st.
     then_do (assert_cond ''reader.cur_ == reader.cap_''
                (cur (reader st) = cap (reader st)) st) (\<lambda>_ st.
     Done () st)))))) magic st1 = Failed st'"
    and st1: "st1 = emplace ''type'' (String (chars ty)) (st\<lparr>reader := advance off (reader st)\<rparr>)"
    and ty: "ty = ''PROP'' \<and> off = 4 \<and> peek 4 (reader st) \<noteq> chars ''PTCH'' \<or>
         ty = ''PTCH'' \<and> off = 16 \<and> peek 4 (reader st) = chars ''PTCH''"
    and lo: "cur (reader st) + off \<le> cap (reader st)"
    and empty: "sections (bin st) = Map.empty"
  shows "\<exists>errs c p. failed_at tbl st st' errs c p ty off"
proof -
  have s1: "sections (bin st1) = [''type'' \<mapsto> String (chars ty)]"
    using empty by (simp add: st1 sections_emplace)
  have le1: "cur (reader st1) \<le> cap (reader st1)"
    using lo by (simp add: st1)
  have u: "u32_at (cur (reader st1)) (reader st1) = u32_at (cur (reader st) + off) (reader st)"
    by (simp add: st1 u32_at_def)
  have cap1: "cap (reader st1) = cap (reader st)"
    by (simp add: st1)
  from after_type_Failed [OF T s1 le1] show ?thesis
    unfolding failed_at_def
    apply (simp only: u cap1)
    apply (elim exE)
    subgoal for errs c p
      apply (rule exI [of _ errs], rule exI [of _ c], rule exI [of _ p])
      using ty apply (simp only: simp_thms)
      done
    done
qed

lemma read_sections_Failed:
  assumes F: "read_sections tbl fuel st = Failed st'"
    and empty: "sections (bin st) = Map.empty"
    and le: "cur (reader st) \<le> cap (reader st)"
  shows "\<exists>errs c p ty off. failed_at tbl st st' errs c p ty off"
proof -
  let ?T = "\<lambda>magic st.
     then_do (assert_cond ''magic == std::array{ 'P', 'R', 'O', 'P' }''
                (magic = chars ''PROP'') st) (\<lambda>_ st.
     then_do (assert_read ''reader.read(version)'' (read (0::32 word)) st) (\<lambda>version st.
     let st = emplace ''version'' (U32 version) st in
     then_do (assert_call ''read_linked(version >= 2)'' (read_linked tbl (version \<ge> 2)) st) (\<lambda>_ st.
     then_do (assert_call ''read_entries()'' (read_entries tbl fuel) st) (\<lambda>_ st.
     then_do (assert_cond ''reader.cur_ == reader.cap_''
                (cur (reader st) = cap (reader st)) st) (\<lambda>_ st.
     Done () st)))))"
  let ?H = "\<lambda>magic st. if magic = chars ''PTCH'' then
          then_do (assert_read ''reader.read(unk)'' (read (0::64 word)) st) (\<lambda>unk st.
          then_do (assert_read ''reader.read(magic)'' (read_array 4 magic) st) (\<lambda>magic st.
          Done magic (emplace ''type'' (String (chars ''PTCH'')) st)))
        else Done magic (emplace ''type'' (String (chars ''PROP'')) st)"
  from F have "then_do (assert_read ''reader.read(magic)'' (read_array 4 [0, 0, 0, 0::8 word]) st)
      (\<lambda>magic st. then_do (?H magic st) ?T) = Failed st'"
    by (simp only: read_sections_def)
  from this [THEN then_do_Failed_iff [THEN iffD1]] show ?thesis
  proof (elim disjE exE conjE)
    assume "assert_read ''reader.read(magic)'' (read_array 4 [0, 0, 0, 0::8 word]) st = Failed st'"
    then obtain v r where rd: "read_array 4 [0, 0, 0, 0::8 word] (reader st) = (False, v, r)"
      and st': "st' = st\<lparr>reader := r, error := error st @ [(''reader.read(magic)'', cur (reader st))]\<rparr>"
      unfolding assert_read_Failed_iff by (elim exE conjE)
    have "\<not> cur (reader st) + 4 \<le> cap (reader st)"
    proof
      assume "cur (reader st) + 4 \<le> cap (reader st)"
      from read_array_bytes [OF this, of "[0, 0, 0, 0]"] rd show False by simp
    qed
    then have "length (peek 4 (reader st)) < 4"
      by (simp add: peek_def cap_def)
    moreover have "length (chars ''PTCH'') = 4"
      by (simp add: chars_def)
    ultimately have ne: "peek 4 (reader st) \<noteq> chars ''PTCH''"
      by (metis less_irrefl)
    have "failed_at tbl st st' (error st) ''reader.read(magic)'' (cur (reader st)) ''PROP'' 4"
    proof (rule failed_at_early)
      show "error st' = error st @ [(''reader.read(magic)'', cur (reader st))]"
        by (simp add: st')
      show "sections (bin st') = Map.empty"
        by (simp add: st' empty)
    qed (simp_all only: ne simp_thms not_False_eq_True)
    then show ?thesis by (intro exI)
  next
    fix magic st0
    assume "assert_read ''reader.read(magic)'' (read_array 4 [0, 0, 0, 0::8 word]) st = Done magic st0"
    then have magic: "magic = peek 4 (reader st)"
      and st0: "st0 = st\<lparr>reader := advance 4 (reader st)\<rparr>"
      and le4: "cur (reader st) + 4 \<le> cap (reader st)"
      by (simp_all add: assert_read_Done_iff read_array_bytes_iff)
    assume H: "then_do (?H magic st0) ?T = Failed st'"
    show ?thesis
    proof (cases "magic = chars ''PTCH''")
      case False
      from H have "?T magic (emplace ''type'' (String (chars ''PROP'')) st0) = Failed st'"
        by (simp only: False if_False then_do.simps)
      then have "\<exists>errs c p. failed_at tbl st st' errs c p ''PROP'' 4"
      proof (rule failed_at_after)
        show "emplace ''type'' (String (chars ''PROP'')) st0 =
            emplace ''type'' (String (chars ''PROP'')) (st\<lparr>reader := advance 4 (reader st)\<rparr>)"
          by (simp only: st0)
        show "''PROP'' = ''PROP'' \<and> (4::nat) = 4 \<and> peek 4 (reader st) \<noteq> chars ''PTCH'' \<or>
           ''PROP'' = ''PTCH'' \<and> (4::nat) = 16 \<and> peek 4 (reader st) = chars ''PTCH''"
          using False by (simp only: magic simp_thms not_False_eq_True)
      qed (rule le4, rule empty)
      then show ?thesis
        by (elim exE) (intro exI)
    next
      case True
      from H have "then_do (then_do (assert_read ''reader.read(unk)'' (read (0::64 word)) st0) (\<lambda>unk st.
          then_do (assert_read ''reader.read(magic)'' (read_array 4 magic) st) (\<lambda>magic st.
          Done magic (emplace ''type'' (String (chars ''PTCH'')) st)))) ?T = Failed st'"
        by (simp only: True simp_thms if_True)
      then have "then_do (assert_read ''reader.read(unk)'' (read (0::64 word)) st0) (\<lambda>unk st.
          then_do (assert_read ''reader.read(magic)'' (read_array 4 magic) st) (\<lambda>magic st.
          ?T magic (emplace ''type'' (String (chars ''PTCH'')) st))) = Failed st'"
        by (simp only: then_do_assoc then_do.simps)
      from this [THEN then_do_Failed_iff [THEN iffD1]] show ?thesis
      proof (elim disjE exE conjE)
        assume "assert_read ''reader.read(unk)'' (read (0::64 word)) st0 = Failed st'"
        then obtain v r where
          st': "st' = st0\<lparr>reader := r, error := error st0 @ [(''reader.read(unk)'', cur (reader st0))]\<rparr>"
          unfolding assert_read_Failed_iff by (elim exE conjE)
        have "failed_at tbl st st' (error st0) ''reader.read(unk)'' (cur (reader st0)) ''PTCH'' 16"
        proof (rule failed_at_early)
          show "error st' = error st0 @ [(''reader.read(unk)'', cur (reader st0))]"
            by (simp add: st')
          show "sections (bin st') = Map.empty"
            by (simp add: st' st0 empty)
          show "''PTCH'' = ''PROP'' \<and> (16::nat) = 4 \<and> peek 4 (reader st) \<noteq> chars ''PTCH'' \<or>
             ''PTCH'' = ''PTCH'' \<and> (16::nat) = 16 \<and> peek 4 (reader st) = chars ''PTCH''"
            using True by (simp only: magic simp_thms)
        qed (simp only: simp_thms)
        then show ?thesis by (intro exI)
      next
        fix unk st2
        assume "assert_read ''reader.read(unk)'' (read (0::64 word)) st0 = Done unk st2"
        then have st2: "st2 = st\<lparr>reader := advance 12 (reader st)\<rparr>"
          and le12: "cur (reader st) + 12 \<le> cap (reader st)"
          by (simp_all add: assert_read_Done_iff read_True_iff sizeof_def st0)
        assume "then_do (assert_read ''reader.read(magic)'' (read_array 4 magic) st2) (\<lambda>magic st.
          ?T magic (emplace ''type'' (String (chars ''PTCH'')) st)) = Failed st'"
        from this [THEN then_do_Failed_iff [THEN iffD1]] show ?thesis
        proof (elim disjE exE conjE)
          assume "assert_read ''reader.read(magic)'' (read_array 4 magic) st2 = Failed st'"
          then obtain v r where
            st': "st' = st2\<lparr>reader := r, error := error st2 @ [(''reader.read(magic)'', cur (reader st2))]\<rparr>"
            unfolding assert_read_Failed_iff by (elim exE conjE)
          have "failed_at tbl st st' (error st2) ''reader.read(magic)'' (cur (reader st2)) ''PTCH'' 16"
          proof (rule failed_at_early)
            show "error st' = error st2 @ [(''reader.read(magic)'', cur (reader st2))]"
              by (simp add: st')
            show "sections (bin st') = Map.empty"
              by (simp add: st' st2 empty)
            show "''PTCH'' = ''PROP'' \<and> (16::nat) = 4 \<and> peek 4 (reader st) \<noteq> chars ''PTCH'' \<or>
               ''PTCH'' = ''PTCH'' \<and> (16::nat) = 16 \<and> peek 4 (reader st) = chars ''PTCH''"
              using True by (simp only: magic simp_thms)
          qed (simp only: simp_thms)
          then show ?thesis by (intro exI)
        next
          fix magic2 st3
          assume "assert_read ''reader.read(magic)'' (read_array 4 magic) st2 = Done magic2 st3"
          then have st3: "st3 = st\<lparr>reader := advance 16 (reader st)\<rparr>"
            and le16: "cur (reader st) + 16 \<le> cap (reader st)"
            by (simp_all add: assert_read_Done_iff read_array_bytes_iff st2)
          assume "?T magic2 (emplace ''type'' (String (chars ''PTCH'')) st3) = Failed st'"
          then have "\<exists>errs c p. failed_at tbl st st' errs c p ''PTCH'' 16"
          proof (rule failed_at_after)
            show "emplace ''type'' (String (chars ''PTCH'')) st3 =
                emplace ''type'' (String (chars ''PTCH'')) (st\<lparr>reader := advance 16 (reader st)\<rparr>)"
              by (simp only: st3)
            show "''PTCH'' = ''PROP'' \<and> (16::nat) = 4 \<and> peek 4 (reader st) \<noteq> chars ''PTCH'' \<or>
               ''PTCH'' = ''PTCH'' \<and> (16::nat) = 16 \<and> peek 4 (reader st) = chars ''PTCH''"
              using True by (simp only: magic simp_thms)
          qed (rule le16, rule empty)
          then show ?thesis
            by (elim exE) (intro exI)
        qed
      qed
    qed
  qed
qed

lemma disj5_mono:
  "A \<or> B \<or> C \<or> D \<or> E \<Longrightarrow> (E \<Longrightarrow> E') \<Longrightarrow> A \<or> B \<or> C \<or> D \<or> E'"
  by blast

subsection \<open>Failing reads\<close>

text \<open>
  C3, as the code has it: a failing fixed-width read, array read, vector read or hash read
  leaves the cursor and the destination as they were. A failing string read leaves the
  destination as it was, and the cursor too when the two bytes of the length are missing;
  when they are there the cursor stays behind them. A failing read of a type tag leaves
  both as they were when no byte is left; otherwise the cursor has passed the tag byte and
  the destination holds it.
\<close>

theorem read_failure_state:
  "(read v r1 = (False, v', r1') \<longrightarrow> v' = v \<and> r1' = r1) \<and>
   (read_array n a r2 = (False, a', r2') \<longrightarrow> a' = a \<and> r2' = r2) \<and>
   (read_vector b m r3 = (False, b', r3') \<longrightarrow> b' = b \<and> r3' = r3) \<and>
   (read_FNV1a h r4 = (False, h', r4') \<longrightarrow> h' = h \<and> r4' = r4) \<and>
   (read_XXH64 x r5 = (False, x', r5') \<longrightarrow> x' = x \<and> r5' = r5) \<and>
   (read_string s r6 = (False, s', r6') \<longrightarrow>
      s' = s \<and> (if cap r6 < cur r6 + 2 then r6' = r6 else r6' = advance 2 r6)) \<and>
   (read_Type tbl t r7 = (False, t', r7') \<longrightarrow>
      (if cap r7 < cur r7 + 1 then t' = t \<and> r7' = r7
       else t' = le_word (peek 1 r7) \<and> r7' = advance 1 r7))"
  by (simp add: read_False_iff read_array_False_iff read_vector_False_iff read_FNV1a_eq
      read_XXH64_eq read_string_False_iff read_Type_False_iff)

theorem read_failure_state_witness:
  "read (0::32 word) \<lparr>bytes = [1, 2, 3], cur = 0\<rparr> = (False, 0, \<lparr>bytes = [1, 2, 3], cur = 0\<rparr>) \<and>
   read_string [] \<lparr>bytes = [5, 0, 1], cur = 0\<rparr> = (False, [], \<lparr>bytes = [5, 0, 1], cur = 2\<rparr>) \<and>
   read_Type spec_table 0 \<lparr>bytes = [0x14], cur = 0\<rparr> = (False, 0x14, \<lparr>bytes = [0x14], cur = 1\<rparr>)"
  using read_failure_state [of "0::32 word" "\<lparr>bytes = [1, 2, 3], cur = 0\<rparr>" 0
        "\<lparr>bytes = [1, 2, 3], cur = 0\<rparr>" 
        0 "[]::8 word list" "\<lparr>bytes = [], cur = 0\<rparr>" "[]"  "\<lparr>bytes = [], cur = 0\<rparr>"
        "[]::8 word list" 0 "\<lparr>bytes = [], cur = 0\<rparr>" "[]"  "\<lparr>bytes = [], cur = 0\<rparr>"
        0 "\<lparr>bytes = [], cur = 0\<rparr>" 0  "\<lparr>bytes = [], cur = 0\<rparr>"
        0 "\<lparr>bytes = [], cur = 0\<rparr>" 0  "\<lparr>bytes = [], cur = 0\<rparr>"
        "[]" "\<lparr>bytes = [5, 0, 1], cur = 0\<rparr>" "[]" "\<lparr>bytes = [5, 0, 1], cur = 2\<rparr>"
        spec_table 0 "\<lparr>bytes = [0x14], cur = 0\<rparr>" "0x14" "\<lparr>bytes = [0x14], cur = 1\<rparr>"]
  by (simp add: read_def read_string_def read_Type_def sizeof_def cap_def peek_def advance_def spec_table_def)

text \<open>
  C3 as stated fails: on the three bytes \<open>05 00 01\<close> the string read fails, because the
  length 5 exceeds the one byte left, with the cursor at offset 2.
\<close>

theorem read_string_failure_counterexample:
  "\<not> fst (read_string [] \<lparr>bytes = [5, 0, 1], cur = 0\<rparr>) \<and>
   cur (snd (snd (read_string [] \<lparr>bytes = [5, 0, 1], cur = 0\<rparr>))) = 2"
  by (simp add: read_def read_string_def sizeof_def cap_def peek_def advance_def)


subsection \<open>Size-prefixed fields\<close>



subsection \<open>Pointers\<close>

text \<open>
  C7: the decode of a \<open>Pointer\<close> reads the name hash first and fails with that check's
  record when the read fails; on the hash 0 it succeeds at once, with the items it
  started with and the cursor 4 bytes on; on any other hash it is the decode of an
  \<open>Embed\<close> from the same state, with \<open>Pointer\<close> for \<open>Embed\<close> in the result.
\<close>

theorem Pointer_as_Embed:
  "(read_FNV1a name (reader st1) = (False, h1, r1) \<longrightarrow>
      read_value_visit_Pointer tbl rv name items st1 =
        fail_msg ''reader.read(value.name)'' (cur (reader st1)) (st1\<lparr>reader := r1\<rparr>)) \<and>
   (read_FNV1a name (reader st2) = (True, 0, r2) \<longrightarrow>
      read_value_visit_Pointer tbl rv name items st2 = Done (Pointer 0 items) (st2\<lparr>reader := r2\<rparr>) \<and>
      position r2 = position (reader st2) + 4) \<and>
   (read_FNV1a name (reader st3) = (True, h3, r3) \<and> h3 \<noteq> 0 \<longrightarrow>
      read_value_visit_Pointer tbl rv name items st3 =
        map_outcome as_Pointer (read_value_visit_Embed tbl rv name items st3))"
proof (intro conjI impI)
  assume "read_FNV1a name (reader st1) = (False, h1, r1)"
  then show "read_value_visit_Pointer tbl rv name items st1 =
      fail_msg ''reader.read(value.name)'' (cur (reader st1)) (st1\<lparr>reader := r1\<rparr>)"
    by (simp add: read_value_visit_Pointer_def assert_read_False fail_msg_def)
next
  assume "read_FNV1a name (reader st2) = (True, 0, r2)"
  then show "read_value_visit_Pointer tbl rv name items st2 = Done (Pointer 0 items) (st2\<lparr>reader := r2\<rparr>)"
    and "position r2 = position (reader st2) + 4"
    by (simp_all add: read_value_visit_Pointer_def assert_read_True read_FNV1a_True_iff position_def)
next
  assume "read_FNV1a name (reader st3) = (True, h3, r3) \<and> h3 \<noteq> 0"
  then show "read_value_visit_Pointer tbl rv name items st3 =
      map_outcome as_Pointer (read_value_visit_Embed tbl rv name items st3)"
    by (simp add: read_value_visit_Pointer_def read_value_visit_Embed_def assert_read_True
        map_outcome_then_do Let_def)
qed

theorem Pointer_as_Embed_witness:
  "read_FNV1a 0 (reader (start [] 0)) = (False, 0, reader (start [] 0)) \<and>
   read_FNV1a 0 (reader (start [0, 0, 0, 0] 0)) = (True, 0, reader (start [0, 0, 0, 0] 4)) \<and>
   read_value_visit_Pointer spec_table (read_value_of spec_table 1) 0 [] (start [0, 0, 0, 0] 0) =
     Done (Pointer 0 []) (start [0, 0, 0, 0] 4) \<and>
   read_FNV1a 0 (reader (start [9, 0, 0, 0, 8, 0, 0, 0, 1, 0, 5, 0, 0, 0, 3, 8] 0)) =
     (True, 9, reader (start [9, 0, 0, 0, 8, 0, 0, 0, 1, 0, 5, 0, 0, 0, 3, 8] 4)) \<and>
   read_value_visit_Pointer spec_table (read_value_of spec_table 1) 0 []
       (start [9, 0, 0, 0, 8, 0, 0, 0, 1, 0, 5, 0, 0, 0, 3, 8] 0) =
     Done (Pointer 9 [(5, U8 8)]) (start [9, 0, 0, 0, 8, 0, 0, 0, 1, 0, 5, 0, 0, 0, 3, 8] 16)"
proof -
  have h1: "read_FNV1a 0 (reader (start [] 0)) = (False, 0, reader (start [] 0))"
    by (simp add: run_defs)
  have h2: "read_FNV1a 0 (reader (start [0, 0, 0, 0] 0)) = (True, 0, reader (start [0, 0, 0, 0] 4))"
    by (simp add: run_defs)
  have h3: "read_FNV1a 0 (reader (start [9, 0, 0, 0, 8, 0, 0, 0, 1, 0, 5, 0, 0, 0, 3, 8] 0)) =
     (True, 9, reader (start [9, 0, 0, 0, 8, 0, 0, 0, 1, 0, 5, 0, 0, 0, 3, 8] 4)) \<and> (9::32 word) \<noteq> 0"
    by (simp add: run_defs)
  have e: "read_value_visit_Embed spec_table (read_value_of spec_table 1) 0 []
       (start [9, 0, 0, 0, 8, 0, 0, 0, 1, 0, 5, 0, 0, 0, 3, 8] 0) =
     Done (Embed 9 [(5, U8 8)]) (start [9, 0, 0, 0, 8, 0, 0, 0, 1, 0, 5, 0, 0, 0, 3, 8] 16)"
    by (simp add: run_defs)
  have s: "start [0, 0, 0, 0] 0\<lparr>reader := reader (start [0, 0, 0, 0] 4)\<rparr> = start [0, 0, 0, 0] 4"
    by (simp add: start_def)
  show ?thesis
    using h1 h2 h3 e s
      Pointer_as_Embed [where tbl = spec_table and rv = "read_value_of spec_table 1"
        and name = 0 and items = "[]"
        and ?st1.0 = "start [] 0" and ?h1.0 = 0 and ?r1.0 = "reader (start [] 0)" 
        and ?st2.0 = "start [0, 0, 0, 0] 0" and ?r2.0 = "reader (start [0, 0, 0, 0] 4)"
        and ?st3.0 = "start [9, 0, 0, 0, 8, 0, 0, 0, 1, 0, 5, 0, 0, 0, 3, 8] 0" and ?h3.0 = 9
        and ?r3.0 = "reader (start [9, 0, 0, 0, 8, 0, 0, 0, 1, 0, 5, 0, 0, 0, 3, 8] 4)"]
    by simp
qed

subsection \<open>The rendered diagnostic\<close>

text \<open>
  C4, at the input \<open>PROP\<close> followed by three bytes: the read of the version fails at
  offset 4. The message has one line for each record, the outermost first, but the
  offset of the failing read is rendered as \<open>-4\<close>: \<open>data - e->second\<close> subtracts the
  recorded position from the start of the buffer.
\<close>

theorem rendered_offset_is_negated:
  "map_option fst (read_binary spec_table \<lparr>sections = Map.empty\<rparr> (chars ''PROP'' @ [0, 0, 0])) =
     Some (Inl ''read_sections() @ 0\<newline>reader.read(version) @ -4\<newline>'')"
  by code_simp
subsection \<open>The sections of a decoded document\<close>

text \<open>
  C1: when the decode succeeds, the document has exactly the sections \<open>type\<close>, \<open>version\<close>,
  \<open>linked\<close> and \<open>entries\<close>. \<open>type\<close> is the string \<open>PROP\<close> or \<open>PTCH\<close>; \<open>version\<close> is the
  32-bit integer of the header, at offset 4 behind \<open>PROP\<close> and at offset 16 in a patch;
  \<open>linked\<close> is a list with the element type \<open>STRING\<close> whose items are strings, and it is
  empty when the version is below 2; \<open>entries\<close> is a map with the key type \<open>HASH\<close> and the
  value type \<open>EMBED\<close> whose pairs are a hash and an embed.
\<close>

theorem decode_sections:
  assumes "read_binary tbl this data = Some (Inr (), b)"
  shows "\<exists>ty off version linked entries.
      sections b =
        [''type'' \<mapsto> String (chars ty), ''version'' \<mapsto> U32 version,
         ''linked'' \<mapsto> List (STRING tbl) linked,
         ''entries'' \<mapsto> Map_v (HASH tbl) (EMBED tbl) entries] \<and>
      (ty = ''PROP'' \<and> off = 4 \<or> ty = ''PTCH'' \<and> off = 16) \<and>
      version = u32_at off \<lparr>bytes = data, cur = 0\<rparr> \<and>
      (\<forall>v\<in>set linked. \<exists>s. v = String s) \<and> (version < 2 \<longrightarrow> linked = []) \<and>
      (\<forall>kv\<in>set entries. \<exists>h n fs. kv = (Hash h, Embed n fs))"
proof -
  from read_binary_Inr [OF assms] obtain ty off version linked entries where
    s: "sections b =
        [''type'' \<mapsto> String (chars ty), ''version'' \<mapsto> U32 version,
         ''linked'' \<mapsto> List (STRING tbl) linked,
         ''entries'' \<mapsto> Map_v (HASH tbl) (EMBED tbl) entries]"
    and t: "ty = ''PROP'' \<and> off = 4 \<or> ty = ''PTCH'' \<and> off = 16"
    and v: "version = u32_at off \<lparr>bytes = data, cur = 0\<rparr>"
    and l: "\<forall>v\<in>set linked. \<exists>s. v = String s" "version < 2 \<longrightarrow> linked = []"
    and e: "\<forall>kv\<in>set entries. \<exists>h n fs. kv = (Hash h, Embed n fs) \<and>
              (value_initialised tbl \<longrightarrow> (\<forall>f\<in>set fs. good tbl (snd f)))"
    by (elim exE conjE)
  from e have "\<forall>kv\<in>set entries. \<exists>h n fs. kv = (Hash h, Embed n fs)"
    by blast
  with s t v l show ?thesis
    by (intro exI conjI)
qed

theorem decode_sections_witness:
  "\<exists>ty off version linked entries.
      sections \<lparr>sections = [''type'' \<mapsto> String (chars ''PROP''), ''version'' \<mapsto> U32 2,
         ''linked'' \<mapsto> List 0x10 [String (chars ''ab'')],
         ''entries'' \<mapsto> Map_v 0x11 0x84 []]\<rparr> =
        [''type'' \<mapsto> String (chars ty), ''version'' \<mapsto> U32 version,
         ''linked'' \<mapsto> List (STRING spec_table) linked,
         ''entries'' \<mapsto> Map_v (HASH spec_table) (EMBED spec_table) entries] \<and>
      (ty = ''PROP'' \<and> off = 4 \<or> ty = ''PTCH'' \<and> off = 16) \<and>
      version = u32_at off \<lparr>bytes = doc_b, cur = 0\<rparr> \<and>
      (\<forall>v\<in>set linked. \<exists>s. v = String s) \<and> (version < 2 \<longrightarrow> linked = []) \<and>
      (\<forall>kv\<in>set entries. \<exists>h n fs. kv = (Hash h, Embed n fs))"
  by (rule decode_sections [OF read_binary_doc_b [of "\<lparr>sections = Map.empty\<rparr>"]])

subsection \<open>The alternative \<open>None\<close>\<close>

text \<open>
  C10: the decode of a value whose type tag selects the alternative \<open>None\<close> fails, at the
  check \<open>false\<close>; with a \<open>from_type\<close> that returns value-initialised alternatives, no
  section of a decoded document is \<open>None\<close> or holds a \<open>None\<close> at any depth; and the read
  of a type tag accepts the tag of \<open>None\<close> where the table has it primitive and not above
  \<open>MAX_PRIMITIVE\<close>.
\<close>

theorem None_is_never_decoded:
  "(from_type tbl type = None_v \<longrightarrow>
      read_value_of tbl (Suc fuel) type st = fail_msg ''false'' (cur (reader st)) st) \<and>
   (value_initialised tbl \<and> read_binary tbl this data = Some (Inr (), b) \<and>
    sections b name = Some v \<longrightarrow> \<not> contains_None v) \<and>
   (from_type tbl t = None_v \<and> is_primitive tbl t \<and> t \<le> MAX_PRIMITIVE tbl \<and>
    cur r < cap r \<and> bytes r ! cur r = t \<longrightarrow>
      read_Type tbl dst r = (True, t, advance 1 r))"
  using read_value_of_None [of tbl type fuel st] document_no_None [of tbl this data b name v]
    read_Type_accepts [of r t tbl dst]
  by simp

theorem None_is_never_decoded_witness:
  "from_type spec_table 0 = None_v \<and>
   read_value_of spec_table (Suc 0) 0 (start [0] 0) = fail_msg ''false'' 0 (start [0] 0) \<and>
   value_initialised spec_table \<and>
   read_binary spec_table \<lparr>sections = Map.empty\<rparr> doc_e =
     Some (Inr (), \<lparr>sections = [''type'' \<mapsto> String (chars ''PROP''), ''version'' \<mapsto> U32 0,
         ''linked'' \<mapsto> List 0x10 [],
         ''entries'' \<mapsto> Map_v 0x11 0x84
            [(Hash 0xBB, Embed 0xAA [(1, U8 7), (2, List 0x04 [I16 1, I16 2])])]]\<rparr>) \<and>
   \<not> contains_None
       (Map_v 0x11 0x84 [(Hash 0xBB, Embed 0xAA [(1, U8 7), (2, List 0x04 [I16 1, I16 2])])]) \<and>
   is_primitive spec_table 0 \<and> 0 \<le> MAX_PRIMITIVE spec_table \<and>
   read_Type spec_table 5 \<lparr>bytes = [0], cur = 0\<rparr> = (True, 0, \<lparr>bytes = [0], cur = 1\<rparr>)"
proof -
  have n: "from_type spec_table 0 = None_v"
    by (simp add: spec_table_def tags_def)
  have p: "is_primitive spec_table 0 \<and> 0 \<le> MAX_PRIMITIVE spec_table"
    by (simp add: spec_table_def)
  have c: "cur \<lparr>bytes = [0::byte], cur = 0\<rparr> < cap \<lparr>bytes = [0], cur = 0\<rparr> \<and>
      bytes \<lparr>bytes = [0::byte], cur = 0\<rparr> ! cur \<lparr>bytes = [0::byte], cur = 0\<rparr> = 0"
    by (simp add: cap_def)
  have s: "sections \<lparr>sections = [''type'' \<mapsto> String (chars ''PROP''), ''version'' \<mapsto> U32 0,
         ''linked'' \<mapsto> List 0x10 [],
         ''entries'' \<mapsto> Map_v 0x11 0x84
            [(Hash 0xBB, Embed 0xAA [(1, U8 7), (2, List 0x04 [I16 1, I16 2])])]]\<rparr> ''entries'' =
      Some (Map_v 0x11 0x84 [(Hash 0xBB, Embed 0xAA [(1, U8 7), (2, List 0x04 [I16 1, I16 2])])])"
    by simp
  show ?thesis
    using n p c s value_initialised_spec_table
      read_binary_doc_e [of "\<lparr>sections = Map.empty\<rparr>"]
      None_is_never_decoded [where tbl = spec_table and type = 0 and fuel = 0
        and st = "start [0] 0" and this = "\<lparr>sections = Map.empty\<rparr>" and data = doc_e
        and b = "\<lparr>sections = [''type'' \<mapsto> String (chars ''PROP''), ''version'' \<mapsto> U32 0,
         ''linked'' \<mapsto> List 0x10 [],
         ''entries'' \<mapsto> Map_v 0x11 0x84
            [(Hash 0xBB, Embed 0xAA [(1, U8 7), (2, List 0x04 [I16 1, I16 2])])]]\<rparr>"
        and name = "''entries''"
        and v = "Map_v 0x11 0x84 [(Hash 0xBB, Embed 0xAA [(1, U8 7), (2, List 0x04 [I16 1, I16 2])])]"
        and t = 0 and r = "\<lparr>bytes = [0], cur = 0\<rparr>" and dst = 5]
    by (simp add: start_def advance_def)
qed

subsection \<open>Nesting of containers\<close>

text \<open>
  C6: the decode of a \<open>List\<close>, a \<open>List2\<close> or an \<open>Option\<close> fails at the check
  \<open>!is_container(value.valueType)\<close> when the element type read is a container tag; the
  decode of a \<open>Map\<close> fails at \<open>is_primitive(value.keyType)\<close> when the key type read is not
  primitive, and at \<open>!is_container(value.valueType)\<close> when the value type read is a
  container tag. So every value that \<open>read_value_of\<close> returns obeys the nesting rule at
  every depth, and so do the key and the embed of every pair of the section \<open>entries\<close>.
  (The map of that section itself is not decoded from a recorded tag: \<open>read_entries\<close>
  builds it with the types \<open>HASH\<close> and \<open>EMBED\<close>.)
\<close>

theorem nesting_is_checked:
  "(read_Type tbl vt1 (reader st1) = (True, t1, r1) \<and> is_container tbl t1 \<longrightarrow>
      read_value_visit_List tbl rv vt1 items1 st1 =
        fail_msg ''!is_container(value.valueType)'' (cur r1) (st1\<lparr>reader := r1\<rparr>)) \<and>
   (read_Type tbl vt2 (reader st2) = (True, t2, r2) \<and> is_container tbl t2 \<longrightarrow>
      read_value_visit_List2 tbl rv vt2 items2 st2 =
        fail_msg ''!is_container(value.valueType)'' (cur r2) (st2\<lparr>reader := r2\<rparr>)) \<and>
   (read_Type tbl vt3 (reader st3) = (True, t3, r3) \<and> is_container tbl t3 \<longrightarrow>
      read_value_visit_Option tbl rv vt3 items3 st3 =
        fail_msg ''!is_container(value.valueType)'' (cur r3) (st3\<lparr>reader := r3\<rparr>)) \<and>
   (read_Type tbl kt4 (reader st4) = (True, k4, r4) \<and> \<not> is_primitive tbl k4 \<longrightarrow>
      read_value_visit_Map tbl rv kt4 vt4 items4 st4 =
        fail_msg ''is_primitive(value.keyType)'' (cur r4) (st4\<lparr>reader := r4\<rparr>)) \<and>
   (read_Type tbl kt5 (reader st5) = (True, k5, r5) \<and> is_primitive tbl k5 \<and>
    read_Type tbl vt5 r5 = (True, t5, r5') \<and> is_container tbl t5 \<longrightarrow>
      read_value_visit_Map tbl rv kt5 vt5 items5 st5 =
        fail_msg ''!is_container(value.valueType)'' (cur r5') (st5\<lparr>reader := r5'\<rparr>)) \<and>
   (value_initialised tbl \<and> read_value_of tbl fuel type st6 = Done v st6' \<longrightarrow>
      nesting_ok tbl v) \<and>
   (value_initialised tbl \<and> read_binary tbl this data = Some (Inr (), b) \<and>
    sections b ''entries'' = Some (Map_v keyType valueType entries) \<and> (k, e) \<in> set entries \<longrightarrow>
      nesting_ok tbl k \<and> nesting_ok tbl e)"
proof (intro conjI impI; (elim conjE)?)
  show "nesting_ok tbl v"
    if "value_initialised tbl" "read_value_of tbl fuel type st6 = Done v st6'"
    using that by (auto dest: read_value_of_good good_nesting_ok)
qed (simp_all add: List_container List2_container Option_container Map_key_not_primitive
    Map_container entries_nesting_ok)

theorem nesting_is_checked_witness:
  "read_Type spec_table 0 (reader (start [0x80] 0)) = (True, 0x80, reader (start [0x80] 1)) \<and>
   is_container spec_table 0x80 \<and>
   read_value_visit_List spec_table (read_value_of spec_table 1) 0 [] (start [0x80] 0) =
     fail_msg ''!is_container(value.valueType)'' 1 (start [0x80] 1) \<and>
   read_value_visit_List2 spec_table (read_value_of spec_table 1) 0 [] (start [0x80] 0) =
     fail_msg ''!is_container(value.valueType)'' 1 (start [0x80] 1) \<and>
   read_value_visit_Option spec_table (read_value_of spec_table 1) 0 [] (start [0x80] 0) =
     fail_msg ''!is_container(value.valueType)'' 1 (start [0x80] 1) \<and>
   \<not> is_primitive spec_table 0x80 \<and>
   read_value_visit_Map spec_table (read_value_of spec_table 1) 0 0 [] (start [0x80] 0) =
     fail_msg ''is_primitive(value.keyType)'' 1 (start [0x80] 1) \<and>
   read_Type spec_table 0 (reader (start [0x03, 0x80] 0)) =
     (True, 0x03, reader (start [0x03, 0x80] 1)) \<and>
   is_primitive spec_table 0x03 \<and>
   read_Type spec_table 0 (reader (start [0x03, 0x80] 1)) =
     (True, 0x80, reader (start [0x03, 0x80] 2)) \<and>
   read_value_visit_Map spec_table (read_value_of spec_table 1) 0 0 [] (start [0x03, 0x80] 0) =
     fail_msg ''!is_container(value.valueType)'' 2 (start [0x03, 0x80] 2) \<and>
   value_initialised spec_table \<and>
   read_value_of spec_table 2 0x80 (start [0x04, 8, 0, 0, 0, 2, 0, 0, 0, 1, 0, 2, 0] 0) =
     Done (List 0x04 [I16 1, I16 2]) (start [0x04, 8, 0, 0, 0, 2, 0, 0, 0, 1, 0, 2, 0] 13) \<and>
   nesting_ok spec_table (List 0x04 [I16 1, I16 2]) \<and>
   read_binary spec_table \<lparr>sections = Map.empty\<rparr> doc_e =
     Some (Inr (), \<lparr>sections = [''type'' \<mapsto> String (chars ''PROP''), ''version'' \<mapsto> U32 0,
         ''linked'' \<mapsto> List 0x10 [],
         ''entries'' \<mapsto> Map_v 0x11 0x84
            [(Hash 0xBB, Embed 0xAA [(1, U8 7), (2, List 0x04 [I16 1, I16 2])])]]\<rparr>) \<and>
   nesting_ok spec_table (Embed 0xAA [(1, U8 7), (2, List 0x04 [I16 1, I16 2])])"
proof -
  have t1: "read_Type spec_table 0 (reader (start [0x80] 0)) = (True, 0x80, reader (start [0x80] 1)) \<and>
      is_container spec_table 0x80 \<and> \<not> is_primitive spec_table 0x80"
    by (simp add: run_defs)
  have t2: "read_Type spec_table 0 (reader (start [0x03, 0x80] 0)) =
      (True, 0x03, reader (start [0x03, 0x80] 1)) \<and> is_primitive spec_table 0x03 \<and>
      read_Type spec_table 0 (reader (start [0x03, 0x80] 1)) =
      (True, 0x80, reader (start [0x03, 0x80] 2))"
    by (simp add: run_defs)
  have v: "read_value_of spec_table 2 0x80 (start [0x04, 8, 0, 0, 0, 2, 0, 0, 0, 1, 0, 2, 0] 0) =
      Done (List 0x04 [I16 1, I16 2]) (start [0x04, 8, 0, 0, 0, 2, 0, 0, 0, 1, 0, 2, 0] 13)"
    by (simp add: top_defs run_defs)
  have s: "sections \<lparr>sections = [''type'' \<mapsto> String (chars ''PROP''), ''version'' \<mapsto> U32 0,
         ''linked'' \<mapsto> List 0x10 [],
         ''entries'' \<mapsto> Map_v 0x11 0x84
            [(Hash 0xBB, Embed 0xAA [(1, U8 7), (2, List 0x04 [I16 1, I16 2])])]]\<rparr> ''entries'' =
      Some (Map_v 0x11 0x84 [(Hash 0xBB, Embed 0xAA [(1, U8 7), (2, List 0x04 [I16 1, I16 2])])]) \<and>
      (Hash 0xBB, Embed 0xAA [(1, U8 7), (2, List 0x04 [I16 1, I16 2])]) \<in>
        set [(Hash 0xBB, Embed 0xAA [(1, U8 7), (2, List 0x04 [I16 1, I16 2])])]"
    by simp
  have u: "start [0x80] 0\<lparr>reader := reader (start [0x80] 1)\<rparr> = start [0x80] 1 \<and>
      start [0x03, 0x80] 0\<lparr>reader := reader (start [0x03, 0x80] 2)\<rparr> = start [0x03, 0x80] 2 \<and>
      cur (reader (start [0x80] 1)) = 1 \<and> cur (reader (start [0x03, 0x80] 2)) = 2"
    by (simp add: start_def)
  show ?thesis
    using t1 t2 v s u value_initialised_spec_table
      read_binary_doc_e [of "\<lparr>sections = Map.empty\<rparr>"]
      nesting_is_checked [where tbl = spec_table and rv = "read_value_of spec_table 1"
        and ?vt1.0 = 0 and ?st1.0 = "start [0x80] 0" and ?t1.0 = "0x80"
        and ?r1.0 = "reader (start [0x80] 1)" and ?items1.0 = "[]"
        and ?vt2.0 = 0 and ?st2.0 = "start [0x80] 0" and ?t2.0 = "0x80"
        and ?r2.0 = "reader (start [0x80] 1)" and ?items2.0 = "[]"
        and ?vt3.0 = 0 and ?st3.0 = "start [0x80] 0" and ?t3.0 = "0x80"
        and ?r3.0 = "reader (start [0x80] 1)" and ?items3.0 = "[]"
        and ?kt4.0 = 0 and ?vt4.0 = 0 and ?st4.0 = "start [0x80] 0" and ?k4.0 = "0x80"
        and ?r4.0 = "reader (start [0x80] 1)" and ?items4.0 = "[]"
        and ?kt5.0 = 0 and ?vt5.0 = 0 and ?st5.0 = "start [0x03, 0x80] 0" and ?k5.0 = "0x03"
        and ?r5.0 = "reader (start [0x03, 0x80] 1)" and ?t5.0 = "0x80"
        and r5' = "reader (start [0x03, 0x80] 2)" and ?items5.0 = "[]"
        and fuel = 2 and type = "0x80"
        and ?st6.0 = "start [0x04, 8, 0, 0, 0, 2, 0, 0, 0, 1, 0, 2, 0] 0"
        and v = "List 0x04 [I16 1, I16 2]"
        and st6' = "start [0x04, 8, 0, 0, 0, 2, 0, 0, 0, 1, 0, 2, 0] 13"
        and this = "\<lparr>sections = Map.empty\<rparr>" and data = doc_e
        and b = "\<lparr>sections = [''type'' \<mapsto> String (chars ''PROP''), ''version'' \<mapsto> U32 0,
         ''linked'' \<mapsto> List 0x10 [],
         ''entries'' \<mapsto> Map_v 0x11 0x84
            [(Hash 0xBB, Embed 0xAA [(1, U8 7), (2, List 0x04 [I16 1, I16 2])])]]\<rparr>"
        and keyType = "0x11" and valueType = "0x84"
        and entries = "[(Hash 0xBB, Embed 0xAA [(1, U8 7), (2, List 0x04 [I16 1, I16 2])])]"
        and k = "Hash 0xBB" and e = "Embed 0xAA [(1, U8 7), (2, List 0x04 [I16 1, I16 2])]"]
    by simp
qed

subsection \<open>The document after a failed decode\<close>

text \<open>
  C5: the result of a decode does not depend on the sections that the document had
  before the call. When the decode fails, the message names, on its second line, the
  check \<open>c\<close> of \<open>read_sections\<close> that failed, and the document holds exactly the sections
  emplaced before that check, with the values read: no section when a read of the magic
  or of the unknown 8 bytes of a patch failed; \<open>type\<close> (\<open>PTCH\<close> when the buffer starts with
  \<open>PTCH\<close>, else \<open>PROP\<close>) when the comparison of the magic or the read of the version
  failed; \<open>type\<close> and \<open>version\<close> when \<open>read_linked\<close> failed; these and \<open>linked\<close> when
  \<open>read_entries\<close> failed; all four sections only when the check at the end of the buffer
  failed, with bytes left behind the entries.
\<close>

theorem failed_decode_sections:
  "read_binary tbl this data = read_binary tbl this' data \<and>
   (read_binary tbl this data = Some (Inl msg, b) \<longrightarrow>
      (\<exists>errs c p ty off version.
         msg = render (errs @ [(c, p), (''read_sections()'', 0)]) \<and>
         (ty = ''PROP'' \<and> off = 4 \<and> take 4 data \<noteq> chars ''PTCH'' \<or>
          ty = ''PTCH'' \<and> off = 16 \<and> take 4 data = chars ''PTCH'') \<and>
         version = u32_at off \<lparr>bytes = data, cur = 0\<rparr> \<and>
         ((c = ''reader.read(magic)'' \<or> c = ''reader.read(unk)'') \<and>
            sections b = Map.empty \<or>
          (c = ''magic == std::array{ 'P', 'R', 'O', 'P' }'' \<or> c = ''reader.read(version)'') \<and>
            sections b = [''type'' \<mapsto> String (chars ty)] \<or>
          c = ''read_linked(version >= 2)'' \<and>
            sections b = [''type'' \<mapsto> String (chars ty), ''version'' \<mapsto> U32 version] \<or>
          c = ''read_entries()'' \<and>
            (\<exists>linked.
               sections b =
                 [''type'' \<mapsto> String (chars ty), ''version'' \<mapsto> U32 version,
                  ''linked'' \<mapsto> List (STRING tbl) linked] \<and>
               (\<forall>v\<in>set linked. \<exists>s. v = String s) \<and> (version < 2 \<longrightarrow> linked = [])) \<or>
          c = ''reader.cur_ == reader.cap_'' \<and> p < length data \<and>
            (\<exists>linked entries.
               sections b =
                 [''type'' \<mapsto> String (chars ty), ''version'' \<mapsto> U32 version,
                  ''linked'' \<mapsto> List (STRING tbl) linked,
                  ''entries'' \<mapsto> Map_v (HASH tbl) (EMBED tbl) entries] \<and>
               (\<forall>v\<in>set linked. \<exists>s. v = String s) \<and> (version < 2 \<longrightarrow> linked = []) \<and>
               (\<forall>kv\<in>set entries. \<exists>h n fs. kv = (Hash h, Embed n fs))))))"
proof (intro conjI impI)
  show "read_binary tbl this data = read_binary tbl this' data"
    by (rule read_binary_this)
next
  assume r: "read_binary tbl this data = Some (Inl msg, b)"
  let ?st = "\<lparr>bin = this\<lparr>sections := Map.empty\<rparr>, reader = \<lparr>bytes = data, cur = 0\<rparr>, error = []\<rparr>"
  let ?ver = "\<lambda>off. u32_at off \<lparr>bytes = data, cur = 0\<rparr>"
  from r obtain st1 where f: "read_sections tbl (Suc (length data)) ?st = Failed st1"
    and b: "b = bin st1" and msg: "msg = render (error st1 @ [(''read_sections()'', 0)])"
    by (auto simp: read_binary_def process_def Let_def Done_iffs assert_call_Failed_iff
        split: outcome.splits)
  have "sections (bin ?st) = Map.empty" "cur (reader ?st) \<le> cap (reader ?st)"
    by simp_all
  from read_sections_Failed [OF f this] obtain errs c p ty off where
    "failed_at tbl ?st st1 errs c p ty off"
    by (elim exE)
  then have e: "error st1 = errs @ [(c, p)]"
    and h: "ty = ''PROP'' \<and> off = 4 \<and> take 4 data \<noteq> chars ''PTCH'' \<or>
          ty = ''PTCH'' \<and> off = 16 \<and> take 4 data = chars ''PTCH''"
    and cases: "(c = ''reader.read(magic)'' \<or> c = ''reader.read(unk)'') \<and>
            sections b = Map.empty \<or>
          (c = ''magic == std::array{ 'P', 'R', 'O', 'P' }'' \<or> c = ''reader.read(version)'') \<and>
            sections b = [''type'' \<mapsto> String (chars ty)] \<or>
          c = ''read_linked(version >= 2)'' \<and>
            sections b = [''type'' \<mapsto> String (chars ty), ''version'' \<mapsto> U32 (?ver off)] \<or>
          c = ''read_entries()'' \<and>
            (\<exists>linked.
               sections b =
                 [''type'' \<mapsto> String (chars ty), ''version'' \<mapsto> U32 (?ver off),
                  ''linked'' \<mapsto> List (STRING tbl) linked] \<and>
               (\<forall>v\<in>set linked. \<exists>s. v = String s) \<and> (?ver off < 2 \<longrightarrow> linked = [])) \<or>
          c = ''reader.cur_ == reader.cap_'' \<and> p < length data \<and>
            (\<exists>linked entries.
               sections b =
                 [''type'' \<mapsto> String (chars ty), ''version'' \<mapsto> U32 (?ver off),
                  ''linked'' \<mapsto> List (STRING tbl) linked,
                  ''entries'' \<mapsto> Map_v (HASH tbl) (EMBED tbl) entries] \<and>
               (\<forall>v\<in>set linked. \<exists>s. v = String s) \<and> (?ver off < 2 \<longrightarrow> linked = []) \<and>
               (\<forall>kv\<in>set entries. \<exists>h n fs. kv = (Hash h, Embed n fs) \<and>
                  (value_initialised tbl \<longrightarrow> (\<forall>f\<in>set fs. good tbl (snd f)))))"
    unfolding failed_at_def b by (simp_all add: peek_def cap_def)
  from cases have cases': "(c = ''reader.read(magic)'' \<or> c = ''reader.read(unk)'') \<and>
            sections b = Map.empty \<or>
          (c = ''magic == std::array{ 'P', 'R', 'O', 'P' }'' \<or> c = ''reader.read(version)'') \<and>
            sections b = [''type'' \<mapsto> String (chars ty)] \<or>
          c = ''read_linked(version >= 2)'' \<and>
            sections b = [''type'' \<mapsto> String (chars ty), ''version'' \<mapsto> U32 (?ver off)] \<or>
          c = ''read_entries()'' \<and>
            (\<exists>linked.
               sections b =
                 [''type'' \<mapsto> String (chars ty), ''version'' \<mapsto> U32 (?ver off),
                  ''linked'' \<mapsto> List (STRING tbl) linked] \<and>
               (\<forall>v\<in>set linked. \<exists>s. v = String s) \<and> (?ver off < 2 \<longrightarrow> linked = [])) \<or>
          c = ''reader.cur_ == reader.cap_'' \<and> p < length data \<and>
            (\<exists>linked entries.
               sections b =
                 [''type'' \<mapsto> String (chars ty), ''version'' \<mapsto> U32 (?ver off),
                  ''linked'' \<mapsto> List (STRING tbl) linked,
                  ''entries'' \<mapsto> Map_v (HASH tbl) (EMBED tbl) entries] \<and>
               (\<forall>v\<in>set linked. \<exists>s. v = String s) \<and> (?ver off < 2 \<longrightarrow> linked = []) \<and>
               (\<forall>kv\<in>set entries. \<exists>h n fs. kv = (Hash h, Embed n fs)))"
  proof (rule disj5_mono)
    assume "c = ''reader.cur_ == reader.cap_'' \<and> p < length data \<and>
            (\<exists>linked entries.
               sections b =
                 [''type'' \<mapsto> String (chars ty), ''version'' \<mapsto> U32 (?ver off),
                  ''linked'' \<mapsto> List (STRING tbl) linked,
                  ''entries'' \<mapsto> Map_v (HASH tbl) (EMBED tbl) entries] \<and>
               (\<forall>v\<in>set linked. \<exists>s. v = String s) \<and> (?ver off < 2 \<longrightarrow> linked = []) \<and>
               (\<forall>kv\<in>set entries. \<exists>h n fs. kv = (Hash h, Embed n fs) \<and>
                  (value_initialised tbl \<longrightarrow> (\<forall>f\<in>set fs. good tbl (snd f)))))"
    then obtain linked entries where
      c: "c = ''reader.cur_ == reader.cap_''" "p < length data"
      and s: "sections b =
                 [''type'' \<mapsto> String (chars ty), ''version'' \<mapsto> U32 (?ver off),
                  ''linked'' \<mapsto> List (STRING tbl) linked,
                  ''entries'' \<mapsto> Map_v (HASH tbl) (EMBED tbl) entries]"
      and l: "\<forall>v\<in>set linked. \<exists>s. v = String s" "?ver off < 2 \<longrightarrow> linked = []"
      and e: "\<forall>kv\<in>set entries. \<exists>h n fs. kv = (Hash h, Embed n fs) \<and>
                  (value_initialised tbl \<longrightarrow> (\<forall>f\<in>set fs. good tbl (snd f)))"
      by (elim conjE exE)
    from e have "\<forall>kv\<in>set entries. \<exists>h n fs. kv = (Hash h, Embed n fs)"
      by blast
    with c s l show "c = ''reader.cur_ == reader.cap_'' \<and> p < length data \<and>
            (\<exists>linked entries.
               sections b =
                 [''type'' \<mapsto> String (chars ty), ''version'' \<mapsto> U32 (?ver off),
                  ''linked'' \<mapsto> List (STRING tbl) linked,
                  ''entries'' \<mapsto> Map_v (HASH tbl) (EMBED tbl) entries] \<and>
               (\<forall>v\<in>set linked. \<exists>s. v = String s) \<and> (?ver off < 2 \<longrightarrow> linked = []) \<and>
               (\<forall>kv\<in>set entries. \<exists>h n fs. kv = (Hash h, Embed n fs)))"
      by (intro conjI exI)
  qed
  have m: "msg = render (errs @ [(c, p), (''read_sections()'', 0)])"
    by (simp add: msg e)
  from m h cases' show "\<exists>errs c p ty off version.
         msg = render (errs @ [(c, p), (''read_sections()'', 0)]) \<and>
         (ty = ''PROP'' \<and> off = 4 \<and> take 4 data \<noteq> chars ''PTCH'' \<or>
          ty = ''PTCH'' \<and> off = 16 \<and> take 4 data = chars ''PTCH'') \<and>
         version = u32_at off \<lparr>bytes = data, cur = 0\<rparr> \<and>
         ((c = ''reader.read(magic)'' \<or> c = ''reader.read(unk)'') \<and>
            sections b = Map.empty \<or>
          (c = ''magic == std::array{ 'P', 'R', 'O', 'P' }'' \<or> c = ''reader.read(version)'') \<and>
            sections b = [''type'' \<mapsto> String (chars ty)] \<or>
          c = ''read_linked(version >= 2)'' \<and>
            sections b = [''type'' \<mapsto> String (chars ty), ''version'' \<mapsto> U32 version] \<or>
          c = ''read_entries()'' \<and>
            (\<exists>linked.
               sections b =
                 [''type'' \<mapsto> String (chars ty), ''version'' \<mapsto> U32 version,
                  ''linked'' \<mapsto> List (STRING tbl) linked] \<and>
               (\<forall>v\<in>set linked. \<exists>s. v = String s) \<and> (version < 2 \<longrightarrow> linked = [])) \<or>
          c = ''reader.cur_ == reader.cap_'' \<and> p < length data \<and>
            (\<exists>linked entries.
               sections b =
                 [''type'' \<mapsto> String (chars ty), ''version'' \<mapsto> U32 version,
                  ''linked'' \<mapsto> List (STRING tbl) linked,
                  ''entries'' \<mapsto> Map_v (HASH tbl) (EMBED tbl) entries] \<and>
               (\<forall>v\<in>set linked. \<exists>s. v = String s) \<and> (version < 2 \<longrightarrow> linked = []) \<and>
               (\<forall>kv\<in>set entries. \<exists>h n fs. kv = (Hash h, Embed n fs))))"
    by (intro exI [of _ errs] exI [of _ c] exI [of _ p] exI [of _ ty] exI [of _ off]
        exI [of _ "?ver off"] conjI refl)
qed

theorem failed_decode_sections_witness:
  "read_binary spec_table \<lparr>sections = Map.empty\<rparr> doc_t = read_binary spec_table \<lparr>sections = [''stale'' \<mapsto> None_v]\<rparr> doc_t \<and>
   read_binary spec_table \<lparr>sections = Map.empty\<rparr> doc_t =
     Some (Inl ''read_sections() @ 0\<newline>reader.read(version) @ -4\<newline>'',
           \<lparr>sections = [''type'' \<mapsto> String (chars ''PROP'')]\<rparr>) \<and>
   (\<exists>errs c p ty off version.
         ''read_sections() @ 0\<newline>reader.read(version) @ -4\<newline>'' = render (errs @ [(c, p), (''read_sections()'', 0)]) \<and>
         (ty = ''PROP'' \<and> off = 4 \<and> take 4 doc_t \<noteq> chars ''PTCH'' \<or>
          ty = ''PTCH'' \<and> off = 16 \<and> take 4 doc_t = chars ''PTCH'') \<and>
         version = u32_at off \<lparr>bytes = doc_t, cur = 0\<rparr> \<and>
         ((c = ''reader.read(magic)'' \<or> c = ''reader.read(unk)'') \<and>
            sections \<lparr>sections = [''type'' \<mapsto> String (chars ''PROP'')]\<rparr> = Map.empty \<or>
          (c = ''magic == std::array{ 'P', 'R', 'O', 'P' }'' \<or> c = ''reader.read(version)'') \<and>
            sections \<lparr>sections = [''type'' \<mapsto> String (chars ''PROP'')]\<rparr> = [''type'' \<mapsto> String (chars ty)] \<or>
          c = ''read_linked(version >= 2)'' \<and>
            sections \<lparr>sections = [''type'' \<mapsto> String (chars ''PROP'')]\<rparr> = [''type'' \<mapsto> String (chars ty), ''version'' \<mapsto> U32 version] \<or>
          c = ''read_entries()'' \<and>
            (\<exists>linked.
               sections \<lparr>sections = [''type'' \<mapsto> String (chars ''PROP'')]\<rparr> =
                 [''type'' \<mapsto> String (chars ty), ''version'' \<mapsto> U32 version,
                  ''linked'' \<mapsto> List (STRING spec_table) linked] \<and>
               (\<forall>v\<in>set linked. \<exists>s. v = String s) \<and> (version < 2 \<longrightarrow> linked = [])) \<or>
          c = ''reader.cur_ == reader.cap_'' \<and> p < length doc_t \<and>
            (\<exists>linked entries.
               sections \<lparr>sections = [''type'' \<mapsto> String (chars ''PROP'')]\<rparr> =
                 [''type'' \<mapsto> String (chars ty), ''version'' \<mapsto> U32 version,
                  ''linked'' \<mapsto> List (STRING spec_table) linked,
                  ''entries'' \<mapsto> Map_v (HASH spec_table) (EMBED spec_table) entries] \<and>
               (\<forall>v\<in>set linked. \<exists>s. v = String s) \<and> (version < 2 \<longrightarrow> linked = []) \<and>
               (\<forall>kv\<in>set entries. \<exists>h n fs. kv = (Hash h, Embed n fs))))) \<and>
   read_binary spec_table \<lparr>sections = Map.empty\<rparr> (doc_a @ [0]) =
     Some (Inl ''read_sections() @ 0\<newline>reader.cur_ == reader.cap_ @ -12\<newline>'',
           \<lparr>sections = [''type'' \<mapsto> String (chars ''PROP''), ''version'' \<mapsto> U32 0,
         ''linked'' \<mapsto> List 0x10 [],
         ''entries'' \<mapsto> Map_v 0x11 0x84 []]\<rparr>) \<and>
   (\<exists>errs c p ty off version.
         ''read_sections() @ 0\<newline>reader.cur_ == reader.cap_ @ -12\<newline>'' = render (errs @ [(c, p), (''read_sections()'', 0)]) \<and>
         (ty = ''PROP'' \<and> off = 4 \<and> take 4 (doc_a @ [0]) \<noteq> chars ''PTCH'' \<or>
          ty = ''PTCH'' \<and> off = 16 \<and> take 4 (doc_a @ [0]) = chars ''PTCH'') \<and>
         version = u32_at off \<lparr>bytes = (doc_a @ [0]), cur = 0\<rparr> \<and>
         ((c = ''reader.read(magic)'' \<or> c = ''reader.read(unk)'') \<and>
            sections \<lparr>sections = [''type'' \<mapsto> String (chars ''PROP''), ''version'' \<mapsto> U32 0,
         ''linked'' \<mapsto> List 0x10 [],
         ''entries'' \<mapsto> Map_v 0x11 0x84 []]\<rparr> = Map.empty \<or>
          (c = ''magic == std::array{ 'P', 'R', 'O', 'P' }'' \<or> c = ''reader.read(version)'') \<and>
            sections \<lparr>sections = [''type'' \<mapsto> String (chars ''PROP''), ''version'' \<mapsto> U32 0,
         ''linked'' \<mapsto> List 0x10 [],
         ''entries'' \<mapsto> Map_v 0x11 0x84 []]\<rparr> = [''type'' \<mapsto> String (chars ty)] \<or>
          c = ''read_linked(version >= 2)'' \<and>
            sections \<lparr>sections = [''type'' \<mapsto> String (chars ''PROP''), ''version'' \<mapsto> U32 0,
         ''linked'' \<mapsto> List 0x10 [],
         ''entries'' \<mapsto> Map_v 0x11 0x84 []]\<rparr> = [''type'' \<mapsto> String (chars ty), ''version'' \<mapsto> U32 version] \<or>
          c = ''read_entries()'' \<and>
            (\<exists>linked.
               sections \<lparr>sections = [''type'' \<mapsto> String (chars ''PROP''), ''version'' \<mapsto> U32 0,
         ''linked'' \<mapsto> List 0x10 [],
         ''entries'' \<mapsto> Map_v 0x11 0x84 []]\<rparr> =
                 [''type'' \<mapsto> String (chars ty), ''version'' \<mapsto> U32 version,
                  ''linked'' \<mapsto> List (STRING spec_table) linked] \<and>
               (\<forall>v\<in>set linked. \<exists>s. v = String s) \<and> (version < 2 \<longrightarrow> linked = [])) \<or>
          c = ''reader.cur_ == reader.cap_'' \<and> p < length (doc_a @ [0]) \<and>
            (\<exists>linked entries.
               sections \<lparr>sections = [''type'' \<mapsto> String (chars ''PROP''), ''version'' \<mapsto> U32 0,
         ''linked'' \<mapsto> List 0x10 [],
         ''entries'' \<mapsto> Map_v 0x11 0x84 []]\<rparr> =
                 [''type'' \<mapsto> String (chars ty), ''version'' \<mapsto> U32 version,
                  ''linked'' \<mapsto> List (STRING spec_table) linked,
                  ''entries'' \<mapsto> Map_v (HASH spec_table) (EMBED spec_table) entries] \<and>
               (\<forall>v\<in>set linked. \<exists>s. v = String s) \<and> (version < 2 \<longrightarrow> linked = []) \<and>
               (\<forall>kv\<in>set entries. \<exists>h n fs. kv = (Hash h, Embed n fs)))))"
proof -
  note t = failed_decode_sections [where tbl = spec_table and this = "\<lparr>sections = Map.empty\<rparr>"
      and this' = "\<lparr>sections = [''stale'' \<mapsto> None_v]\<rparr>" and data = doc_t
      and msg = "''read_sections() @ 0\<newline>reader.read(version) @ -4\<newline>''"
      and b = "\<lparr>sections = [''type'' \<mapsto> String (chars ''PROP'')]\<rparr>"]
  note x = failed_decode_sections [where tbl = spec_table and this = "\<lparr>sections = Map.empty\<rparr>"
      and this' = "\<lparr>sections = [''stale'' \<mapsto> None_v]\<rparr>" and data = "doc_a @ [0]"
      and msg = "''read_sections() @ 0\<newline>reader.cur_ == reader.cap_ @ -12\<newline>''"
      and b = "\<lparr>sections = [''type'' \<mapsto> String (chars ''PROP''), ''version'' \<mapsto> U32 0,
         ''linked'' \<mapsto> List 0x10 [],
         ''entries'' \<mapsto> Map_v 0x11 0x84 []]\<rparr>"]
  note rt = read_binary_doc_t [of "\<lparr>sections = Map.empty\<rparr>"]
  note rx = read_binary_doc_x [of "\<lparr>sections = Map.empty\<rparr>"]
  from t [THEN conjunct1] rt t [THEN conjunct2, rule_format, OF rt]
    rx x [THEN conjunct2, rule_format, OF rx]
  show ?thesis
    by (intro conjI)
qed

text \<open>
  C5 as stated fails: on the seven bytes \<open>PROP\<close>, 0, 0, 0 the decode fails at the read of
  the version, and the document of the caller holds the section \<open>type\<close>.
\<close>

theorem partial_document_counterexample:
  "isl (fst (the (read_binary spec_table \<lparr>sections = Map.empty\<rparr> doc_t))) \<and>
   sections (snd (the (read_binary spec_table \<lparr>sections = Map.empty\<rparr> doc_t))) ''type'' =
     Some (String (chars ''PROP''))"
  by (simp add: read_binary_doc_t)

subsection \<open>Truncated buffers\<close>

text \<open>
  C8: when the decode of a buffer succeeds, the decode of each of its strict prefixes
  returns with a failure. Every read of the \<open>BinaryReader\<close> that starts with the cursor
  inside the buffer leaves it inside the buffer, and so does \<open>process\<close>, whether it fails
  or succeeds; the bytes that a read copies are those between the two positions of the
  cursor.
\<close>

theorem truncation_fails:
  "(read_binary tbl this data = Some (Inr (), b) \<and> n < length data \<longrightarrow>
      (\<exists>msg b'. read_binary tbl this' (take n data) = Some (Inl msg, b'))) \<and>
   (cur r \<le> cap r \<longrightarrow>
      within r (snd (snd (read v r))) \<and> within r (snd (snd (read_array k a r))) \<and>
      within r (snd (snd (read_vector a' k' r))) \<and> within r (snd (snd (read_string s r))) \<and>
      within r (snd (snd (read_Type tbl t r))) \<and> within r (snd (snd (read_FNV1a h r))) \<and>
      within r (snd (snd (read_XXH64 x r)))) \<and>
   (cur (reader st) \<le> cap (reader st) \<and>
    (process tbl fuel st = Failed st' \<or> process tbl fuel st = Done u st') \<longrightarrow>
      within (reader st) (reader st'))"
  using truncated_read_binary [of tbl this data b n this'] process_within [of st tbl fuel st' u]
    reads_within [OF reads_read, of r v] reads_within [OF reads_read_array, of r k a]
    reads_within [OF reads_read_vector, of r a' k'] reads_within [OF reads_read_string, of r s]
    reads_within [OF reads_read_Type, of r tbl t] reads_within [OF reads_read_FNV1a, of r h]
    reads_within [OF reads_read_XXH64, of r x]
  by simp

theorem truncation_fails_witness:
  "read_binary spec_table \<lparr>sections = Map.empty\<rparr> doc_b =
     Some (Inr (), \<lparr>sections = [''type'' \<mapsto> String (chars ''PROP''), ''version'' \<mapsto> U32 2,
         ''linked'' \<mapsto> List 0x10 [String (chars ''ab'')],
         ''entries'' \<mapsto> Map_v 0x11 0x84 []]\<rparr>) \<and>
   (5::nat) < length doc_b \<and>
   (\<exists>msg b'. read_binary spec_table \<lparr>sections = Map.empty\<rparr> (take 5 doc_b) =
      Some (Inl msg, b')) \<and>
   cur \<lparr>bytes = [1, 0, 7], cur = 1\<rparr> \<le> cap \<lparr>bytes = [1, 0, 7], cur = 1\<rparr> \<and>
   within \<lparr>bytes = [1, 0, 7], cur = 1\<rparr>
     (snd (snd (read (0::32 word) \<lparr>bytes = [1, 0, 7], cur = 1\<rparr>))) \<and>
   within \<lparr>bytes = [1, 0, 7], cur = 1\<rparr>
     (snd (snd (read_string [] \<lparr>bytes = [1, 0, 7], cur = 1\<rparr>))) \<and>
   within \<lparr>bytes = [1, 0, 7], cur = 1\<rparr>
     (snd (snd (read_Type spec_table 0 \<lparr>bytes = [1, 0, 7], cur = 1\<rparr>))) \<and>
   process spec_table 1 (start [] 0) =
     Failed \<lparr>bin = \<lparr>sections = Map.empty\<rparr>, reader = \<lparr>bytes = [], cur = 0\<rparr>,
              error = [(''reader.read(magic)'', 0), (''read_sections()'', 0)]\<rparr> \<and>
   within (reader (start [] 0)) \<lparr>bytes = [], cur = 0\<rparr>"
proof -
  have l: "(5::nat) < length doc_b"
    by (simp add: doc_b_def chars_def)
  have c: "cur \<lparr>bytes = [1, 0, 7::byte], cur = 1\<rparr> \<le> cap \<lparr>bytes = [1, 0, 7], cur = 1\<rparr>"
    by (simp add: cap_def)
  have p: "process spec_table 1 (start [] 0) =
     Failed \<lparr>bin = \<lparr>sections = Map.empty\<rparr>, reader = \<lparr>bytes = [], cur = 0\<rparr>,
              error = [(''reader.read(magic)'', 0), (''read_sections()'', 0)]\<rparr>"
    by (simp add: top_defs run_defs)
  have s: "cur (reader (start [] 0)) \<le> cap (reader (start [] 0))"
    by (simp add: start_def)
  note rb = read_binary_doc_b [of "\<lparr>sections = Map.empty\<rparr>"]
  note th = truncation_fails [where tbl = spec_table and this = "\<lparr>sections = Map.empty\<rparr>"
        and this' = "\<lparr>sections = Map.empty\<rparr>" and data = doc_b and n = 5
        and b = "\<lparr>sections = [''type'' \<mapsto> String (chars ''PROP''), ''version'' \<mapsto> U32 2,
         ''linked'' \<mapsto> List 0x10 [String (chars ''ab'')],
         ''entries'' \<mapsto> Map_v 0x11 0x84 []]\<rparr>"
        and r = "\<lparr>bytes = [1, 0, 7], cur = 1\<rparr>" and v = "0::32 word" and s = "[]" and t = 0
        and st = "start [] 0" and fuel = 1
        and st' = "\<lparr>bin = \<lparr>sections = Map.empty\<rparr>, reader = \<lparr>bytes = [], cur = 0\<rparr>,
              error = [(''reader.read(magic)'', 0), (''read_sections()'', 0)]\<rparr>"]
  have t1: "\<exists>msg b'. read_binary spec_table \<lparr>sections = Map.empty\<rparr> (take 5 doc_b) =
      Some (Inl msg, b')"
    using th [THEN conjunct1] rb l by (simp only: simp_thms)
  note t2 = th [THEN conjunct2, THEN conjunct1, rule_format, OF c]
  have t3: "within (reader (start [] 0)) \<lparr>bytes = [], cur = 0\<rparr>"
    using th [THEN conjunct2, THEN conjunct2, rule_format, OF conjI [OF s disjI1 [OF p]]]
    by simp
  show ?thesis
    using rb l t1 c t2 [THEN conjunct1] t2 [THEN conjunct2, THEN conjunct2, THEN conjunct2, THEN conjunct1]
      t2 [THEN conjunct2, THEN conjunct2, THEN conjunct2, THEN conjunct2, THEN conjunct1] p t3
    by (intro conjI)
qed

subsection \<open>Modified size, count and length fields\<close>





end
